theory Spec2Isabelle
  imports Main
begin

section \<open>Storage model\<close>

text \<open>
  The class \<open>FIFOBuff<T>\<close> of \<open>fifobuff.hpp\<close> keeps its elements in raw memory
  (\<open>item_mem_t *buffer\<close>, one \<open>sizeof(T)\<close> block per slot) and manages their lifetime
  by hand: placement new on insertion, an explicit call of \<open>~T()\<close> on removal.
  A slot is therefore in one of three states: never constructed, holding a live element,
  or holding the bytes of an element whose destructor has run.
\<close>

datatype 'a slot = Uninit | Live 'a | Dead 'a

text \<open>
  Every placement new and every explicit destructor call is recorded, with the index of
  the slot it was applied to, in the order of execution. For the element type \<open>Dummy\<close>
  of \<open>fifobuff_test.cpp\<close> the static counter \<open>Dummy::count\<close> moves by the number of
  \<open>Ctor\<close> entries minus the number of \<open>Dtor\<close> entries.
\<close>

datatype event = Ctor nat | Dtor nat

text \<open>
  Behaviour that C++ leaves undefined is a value of the model: \<open>x % 0\<close>, an access
  outside the storage block, and an assignment through a null pointer.
\<close>

datatype fault = ModByZero | OutOfBounds | NullDeref

definition umod :: "nat \<Rightarrow> nat \<Rightarrow> fault + nat" where
  "umod a b = (if b = 0 then Inl ModByZero else Inr (a mod b))"

text \<open>\<open>*reinterpret_cast<T*>(buffer + i)\<close>, read.\<close>

definition slot_at :: "'a slot list \<Rightarrow> nat \<Rightarrow> fault + 'a slot" where
  "slot_at m i = (if i < length m then Inr (m ! i) else Inl OutOfBounds)"

text \<open>\<open>new (buffer + i) T(item)\<close>: whatever the slot held is overwritten.\<close>

definition placement_new :: "'a slot list \<Rightarrow> nat \<Rightarrow> 'a \<Rightarrow> fault + 'a slot list" where
  "placement_new m i item = (if i < length m then Inr (m[i := Live item]) else Inl OutOfBounds)"

text \<open>
  The effect of a destructor call on one slot. A live element dies. On a slot that holds
  no live element the call changes nothing in the storage (it is a no-op for a trivially
  destructible \<open>T\<close>, and for \<open>Dummy\<close> it only moves the static counter); the call is
  still recorded in the event list by the callers below.
\<close>

fun finalize :: "'a slot \<Rightarrow> 'a slot" where
  "finalize (Live v) = Dead v"
| "finalize Uninit = Uninit"
| "finalize (Dead v) = Dead v"

text \<open>\<open>reinterpret_cast<T*>(buffer + i)->~T()\<close>.\<close>

definition destroy_at :: "'a slot list \<Rightarrow> nat \<Rightarrow> fault + 'a slot list" where
  "destroy_at m i = (if i < length m then Inr (m[i := finalize (m ! i)]) else Inl OutOfBounds)"

section \<open>The ring buffer \<open>FIFOBuff\<close>\<close>

text \<open>
  The fields of the class, plus the event list \<open>lifecycle\<close>, which is not a field of the
  C++ object but the trace of constructor and destructor calls the object has made.
  The \<open>size_t\<close> fields are natural numbers: \<open>head + 1\<close>, \<open>tail + 1\<close> and
  \<open>fifo_size++\<close> are only evaluated below \<open>fifo_cap\<close>, itself a \<open>size_t\<close>, so none of them
  wraps.
\<close>

record 'a FIFOBuff =
  buffer :: "'a slot list"
  head :: nat
  tail :: nat
  fifo_size :: nat
  fifo_cap :: nat
  free_mem :: bool
  lifecycle :: "event list"

text \<open>\<open>FIFOBuff(size_t max_cap)\<close>: \<open>new item_mem_t[fifo_cap]\<close> is raw memory.\<close>

definition FIFOBuff_ctor :: "nat \<Rightarrow> 'a FIFOBuff" where
  "FIFOBuff_ctor max_cap =
     \<lparr>buffer = replicate max_cap Uninit, head = 0, tail = 0, fifo_size = 0,
      fifo_cap = max_cap, free_mem = True, lifecycle = []\<rparr>"

text \<open>\<open>FIFOBuff(void *buf, size_t max_cap)\<close>: the caller's memory, as it is.\<close>

definition FIFOBuff_ctor_buf :: "'a slot list \<Rightarrow> nat \<Rightarrow> 'a FIFOBuff" where
  "FIFOBuff_ctor_buf buf max_cap =
     \<lparr>buffer = buf, head = 0, tail = 0, fifo_size = 0,
      fifo_cap = max_cap, free_mem = False, lifecycle = []\<rparr>"

definition FIFOBuff_size :: "'a FIFOBuff \<Rightarrow> nat" where
  "FIFOBuff_size fb = fifo_size fb"

definition FIFOBuff_capacity :: "'a FIFOBuff \<Rightarrow> nat" where
  "FIFOBuff_capacity fb = fifo_cap fb"

text \<open>\<open>bool add(const T &item)\<close>.\<close>

definition FIFOBuff_add :: "'a FIFOBuff \<Rightarrow> 'a \<Rightarrow> fault + (bool \<times> 'a FIFOBuff)" where
  "FIFOBuff_add fb item =
     (if fifo_size fb < fifo_cap fb then
        (case placement_new (buffer fb) (tail fb) item of
           Inl e \<Rightarrow> Inl e
         | Inr m \<Rightarrow>
            (case umod (tail fb + 1) (fifo_cap fb) of
               Inl e \<Rightarrow> Inl e
             | Inr t \<Rightarrow>
                 Inr (True, fb\<lparr>buffer := m, tail := t, fifo_size := fifo_size fb + 1,
                               lifecycle := lifecycle fb @ [Ctor (tail fb)]\<rparr>)))
      else Inr (False, fb))"

text \<open>
  \<open>bool remove(T *pitem)\<close>. The argument is \<open>None\<close> for \<open>nullptr\<close> and \<open>Some c\<close> for a
  pointer to an object whose present contents are \<open>c\<close>; the second component of the
  result is that object after the call. The copy reads the slot at \<open>head\<close>; the
  destructor is called on the slot at \<open>tail\<close>, as line 126 of the source has it.
\<close>

definition FIFOBuff_remove ::
  "'a FIFOBuff \<Rightarrow> 'a slot option \<Rightarrow> fault + (bool \<times> 'a slot option \<times> 'a FIFOBuff)" where
  "FIFOBuff_remove fb pitem =
     (if fifo_size fb = 0 then Inr (False, pitem, fb)
      else
        (case (if pitem \<noteq> None
               then (case slot_at (buffer fb) (head fb) of
                       Inl e \<Rightarrow> Inl e | Inr s \<Rightarrow> Inr (Some s))
               else Inr pitem) of
           Inl e \<Rightarrow> Inl e
         | Inr out \<Rightarrow>
            (case destroy_at (buffer fb) (tail fb) of
               Inl e \<Rightarrow> Inl e
             | Inr m \<Rightarrow>
                (case umod (head fb + 1) (fifo_cap fb) of
                   Inl e \<Rightarrow> Inl e
                 | Inr h \<Rightarrow>
                     Inr (True, out,
                          fb\<lparr>buffer := m, head := h, fifo_size := fifo_size fb - 1,
                             lifecycle := lifecycle fb @ [Dtor (tail fb)]\<rparr>)))))"

text \<open>
  \<open>bool peek(T *pitem) const\<close>. There is no null check, and the slot read is the one at
  \<open>tail\<close>, as line 143 of the source has it.
\<close>

definition FIFOBuff_peek ::
  "'a FIFOBuff \<Rightarrow> 'a slot option \<Rightarrow> fault + (bool \<times> 'a slot option \<times> 'a FIFOBuff)" where
  "FIFOBuff_peek fb pitem =
     (if fifo_size fb > 0 then
        (case pitem of
           None \<Rightarrow> Inl NullDeref
         | Some _ \<Rightarrow>
            (case slot_at (buffer fb) (tail fb) of
               Inl e \<Rightarrow> Inl e
             | Inr s \<Rightarrow> Inr (True, Some s, fb)))
      else Inr (False, pitem, fb))"

text \<open>
  \<open>~FIFOBuff()\<close>: the loop that cleans up leftover elements, walking from \<open>head\<close>.
  The result is the object when the loop has ended; \<open>delete [] buffer\<close> follows when
  \<open>free_mem\<close> is set.
\<close>

function FIFOBuff_dtor :: "'a FIFOBuff \<Rightarrow> fault + 'a FIFOBuff" where
  "FIFOBuff_dtor fb =
     (if fifo_size fb > 0 then
        (case destroy_at (buffer fb) (head fb) of
           Inl e \<Rightarrow> Inl e
         | Inr m \<Rightarrow>
            (case umod (head fb + 1) (fifo_cap fb) of
               Inl e \<Rightarrow> Inl e
             | Inr h \<Rightarrow>
                 FIFOBuff_dtor
                   (fb\<lparr>buffer := m, head := h, fifo_size := fifo_size fb - 1,
                       lifecycle := lifecycle fb @ [Dtor (head fb)]\<rparr>)))
      else Inr fb)"
  by pat_completeness auto
termination
  by (relation "measure fifo_size") auto

declare FIFOBuff_dtor.simps [simp del]

section \<open>Sequences of calls\<close>

text \<open>
  A client of the ring buffer makes a sequence of calls. \<open>exec\<close> makes one call and
  \<open>run\<close> a sequence of them, collecting for each call the boolean it returned and the
  object behind \<open>pitem\<close> afterwards (\<open>None\<close> for \<open>add\<close>, which has no such argument).
  A fault ends the run.
\<close>

datatype 'a op = Add 'a | Remove "'a slot option" | Peek "'a slot option"

fun exec :: "'a FIFOBuff \<Rightarrow> 'a op \<Rightarrow> fault + (bool \<times> 'a slot option \<times> 'a FIFOBuff)" where
  "exec fb (Add item) =
     (case FIFOBuff_add fb item of Inl e \<Rightarrow> Inl e | Inr (r, fb') \<Rightarrow> Inr (r, None, fb'))"
| "exec fb (Remove pitem) = FIFOBuff_remove fb pitem"
| "exec fb (Peek pitem) = FIFOBuff_peek fb pitem"

fun run ::
  "'a FIFOBuff \<Rightarrow> 'a op list \<Rightarrow> fault + ((bool \<times> 'a slot option) list \<times> 'a FIFOBuff)" where
  "run fb [] = Inr ([], fb)"
| "run fb (c # cs) =
     (case exec fb c of
        Inl e \<Rightarrow> Inl e
      | Inr (r, out, fb') \<Rightarrow>
         (case run fb' cs of
            Inl e \<Rightarrow> Inl e
          | Inr (rs, fb'') \<Rightarrow> Inr ((r, out) # rs, fb'')))"

text \<open>A call of \<open>peek\<close> with a null pointer; the source dereferences it unchecked.\<close>

fun null_peek :: "'a op \<Rightarrow> bool" where
  "null_peek (Peek None) = True"
| "null_peek _ = False"

text \<open>The pointer a call was given (\<open>None\<close> for \<open>add\<close>, which takes none).\<close>

fun pitem_of :: "'a op \<Rightarrow> 'a slot option" where
  "pitem_of (Add item) = None"
| "pitem_of (Remove pitem) = pitem"
| "pitem_of (Peek pitem) = pitem"

text \<open>The values passed to \<open>add\<close>, and the pointers passed to \<open>remove\<close>, in call order.\<close>

fun adds :: "'a op list \<Rightarrow> 'a list" where
  "adds [] = []"
| "adds (Add item # cs) = item # adds cs"
| "adds (_ # cs) = adds cs"

fun removes :: "'a op list \<Rightarrow> 'a slot option list" where
  "removes [] = []"
| "removes (Remove pitem # cs) = pitem # removes cs"
| "removes (_ # cs) = removes cs"

text \<open>What the calls of \<open>remove\<close> left behind their \<open>pitem\<close>, in call order.\<close>

fun delivered :: "'a op list \<Rightarrow> (bool \<times> 'a slot option) list \<Rightarrow> 'a slot option list" where
  "delivered (Remove pitem # cs) ((r, out) # rs) = out # delivered cs rs"
| "delivered (_ # cs) (_ # rs) = delivered cs rs"
| "delivered _ _ = []"

text \<open>
  What a FIFO owes the \<open>k\<close>-th call of \<open>remove\<close>: nothing through a null pointer, the
  \<open>k\<close>-th value added otherwise.
\<close>

fun owed :: "'a slot option \<Rightarrow> 'a \<Rightarrow> 'a slot option" where
  "owed None item = None"
| "owed (Some _) item = Some (Live item)"

text \<open>
  A sequence of \<open>add\<close> and \<open>remove\<close> calls that, started with \<open>n\<close> elements in a buffer
  of capacity \<open>cap\<close>, never adds to a full buffer and never removes from an empty one.
\<close>

fun within_capacity :: "nat \<Rightarrow> nat \<Rightarrow> 'a op list \<Rightarrow> bool" where
  "within_capacity cap n [] = True"
| "within_capacity cap n (Add item # cs) = (n < cap \<and> within_capacity cap (Suc n) cs)"
| "within_capacity cap n (Remove pitem # cs) = (0 < n \<and> within_capacity cap (n - 1) cs)"
| "within_capacity cap n (Peek pitem # cs) = False"

section \<open>Invariants\<close>

text \<open>The bounds of the data model: the count is at most the capacity, both indices are below it.\<close>

definition in_bounds :: "'a FIFOBuff \<Rightarrow> bool" where
  "in_bounds fb \<longleftrightarrow>
     fifo_size fb \<le> fifo_cap fb \<and> head fb < fifo_cap fb \<and> tail fb < fifo_cap fb"

text \<open>
  A well-formed buffer: the storage has room for \<open>fifo_cap\<close> slots, the count is at most
  the capacity, and \<open>tail\<close> is \<open>fifo_size\<close> slots past \<open>head\<close>, circularly. (With
  capacity 0 both indices are 0.)
\<close>

definition well_formed :: "'a FIFOBuff \<Rightarrow> bool" where
  "well_formed fb \<longleftrightarrow>
     fifo_cap fb \<le> length (buffer fb) \<and> fifo_size fb \<le> fifo_cap fb \<and>
     (if fifo_cap fb = 0 then head fb = 0 \<and> tail fb = 0
      else head fb < fifo_cap fb \<and> tail fb = (head fb + fifo_size fb) mod fifo_cap fb)"

text \<open>The indices of the \<open>fifo_size\<close> slots beginning at \<open>head\<close>, and what they hold.\<close>

definition occupied :: "'a FIFOBuff \<Rightarrow> nat list" where
  "occupied fb = map (\<lambda>k. (head fb + k) mod fifo_cap fb) [0..<fifo_size fb]"

definition contents :: "'a FIFOBuff \<Rightarrow> 'a slot list" where
  "contents fb = map (\<lambda>i. buffer fb ! i) (occupied fb)"

fun is_live :: "'a slot \<Rightarrow> bool" where
  "is_live (Live v) = True"
| "is_live _ = False"

text \<open>
  The lifecycle invariant of the data model: a slot holds a live element exactly if it is
  one of the \<open>fifo_size\<close> slots beginning at \<open>head\<close>.
\<close>

definition live_exactly_occupied :: "'a FIFOBuff \<Rightarrow> bool" where
  "live_exactly_occupied fb \<longleftrightarrow>
     list_all (\<lambda>i. is_live (buffer fb ! i) = (i \<in> set (occupied fb))) [0..<fifo_cap fb]"

text \<open>How often a slot was constructed and finalized, read off the event list.\<close>

definition ctor_calls :: "event list \<Rightarrow> nat \<Rightarrow> nat" where
  "ctor_calls es i = length (filter (\<lambda>e. e = Ctor i) es)"

definition dtor_calls :: "event list \<Rightarrow> nat \<Rightarrow> nat" where
  "dtor_calls es i = length (filter (\<lambda>e. e = Dtor i) es)"

fun is_ctor :: "event \<Rightarrow> bool" where
  "is_ctor (Ctor i) = True"
| "is_ctor (Dtor i) = False"

text \<open>
  The net number of live instances the event list accounts for: constructor calls minus
  destructor calls, as \<open>Dummy::count\<close> computes it.
\<close>

definition instance_count :: "event list \<Rightarrow> int" where
  "instance_count es = int (length (filter is_ctor es)) - int (length (filter (\<lambda>e. \<not> is_ctor e) es))"

section \<open>The synchronized queue \<open>FIFOBuff_TS\<close>\<close>

text \<open>
  The POSIX primitives the class uses. A counting semaphore is its value, and a mutex is
  its owner, if it has one. \<open>sem_trywait\<close> returns 0 and takes one unit when the value is
  positive, and returns -1 and leaves the value otherwise. \<open>sem_wait\<close> and
  \<open>pthread_mutex_lock\<close> do not return while the semaphore is 0 or the mutex is held:
  the result \<open>None\<close> says that the caller stays suspended in this state. When they
  return, the unit or the mutex has been taken.
\<close>

definition sem_trywait :: "nat \<Rightarrow> int \<times> nat" where
  "sem_trywait v = (if 0 < v then (0, v - 1) else (-1, v))"

definition sem_wait :: "nat \<Rightarrow> nat option" where
  "sem_wait v = (if 0 < v then Some (v - 1) else None)"

definition sem_post :: "nat \<Rightarrow> nat" where
  "sem_post v = v + 1"

definition pthread_mutex_lock :: "nat \<Rightarrow> nat option \<Rightarrow> nat option option" where
  "pthread_mutex_lock t m = (case m of None \<Rightarrow> Some (Some t) | Some owner \<Rightarrow> None)"

definition pthread_mutex_unlock :: "nat option \<Rightarrow> nat option" where
  "pthread_mutex_unlock m = None"

record 'a FIFOBuff_TS =
  fifo :: "'a FIFOBuff"
  mutex :: "nat option"
  add_sem :: nat
  rem_sem :: nat

text \<open>
  \<open>sem_open(name, O_CREAT, 0600, value)\<close>, as \<open>init()\<close> calls it. The semaphores are
  named, and the names are global: the call is made in a world where a semaphore may
  exist under the name already, with some value. Without \<open>O_EXCL\<close> the call then opens
  that semaphore and ignores \<open>value\<close>. Otherwise it creates one. The function takes
  \<open>value\<close> through its variable argument list as an \<open>unsigned int\<close>, while the source
  passes \<open>fifo.capacity()\<close>, a \<open>size_t\<close>: what arrives is the capacity modulo \<open>2^32\<close>.
  A value above \<open>SEM_VALUE_MAX\<close> is refused: the call returns \<open>SEM_FAILED\<close> and there is
  no semaphore (\<open>None\<close>). The two constants are those of the platform (\<open>unsigned int\<close>
  of 32 bits, \<open>SEM_VALUE_MAX = INT_MAX\<close>).
\<close>

type_synonym namespace = "string \<Rightarrow> nat option"

definition no_semaphores :: namespace where
  "no_semaphores = (\<lambda>name. None)"

definition SEM_VALUE_MAX :: nat where
  "SEM_VALUE_MAX = 2147483647"

definition unsigned_int :: "nat \<Rightarrow> nat" where
  "unsigned_int v = v mod 4294967296"

definition sem_open :: "namespace \<Rightarrow> string \<Rightarrow> nat \<Rightarrow> nat option" where
  "sem_open os name v =
     (case os name of
        Some existing \<Rightarrow> Some existing
      | None \<Rightarrow> if unsigned_int v \<le> SEM_VALUE_MAX then Some (unsigned_int v) else None)"

text \<open>
  \<open>init()\<close>, which both constructors call after constructing \<open>fifo\<close>, in the world
  \<open>os\<close> of named semaphores. The source does not check what \<open>sem_open\<close> returns; the
  result is \<open>None\<close> when the object is left with a handle that is \<open>SEM_FAILED\<close>, on
  which every later semaphore call is undefined. The two calls of \<open>sem_unlink\<close> that
  follow remove the names, which changes what later calls of \<open>sem_open\<close> find, not the
  semaphores of this object.
\<close>

definition init :: "namespace \<Rightarrow> 'a FIFOBuff \<Rightarrow> 'a FIFOBuff_TS option" where
  "init os f =
     (case sem_open os ''TSQueue_AddSem'' (FIFOBuff_capacity f) of
        None \<Rightarrow> None
      | Some a \<Rightarrow>
         (case sem_open os ''TSQueue_RemSem'' 0 of
            None \<Rightarrow> None
          | Some r \<Rightarrow> Some \<lparr>fifo = f, mutex = None, add_sem = a, rem_sem = r\<rparr>))"

definition FIFOBuff_TS_ctor :: "namespace \<Rightarrow> nat \<Rightarrow> 'a FIFOBuff_TS option" where
  "FIFOBuff_TS_ctor os max_cap = init os (FIFOBuff_ctor max_cap)"

definition FIFOBuff_TS_ctor_buf ::
  "namespace \<Rightarrow> 'a slot list \<Rightarrow> nat \<Rightarrow> 'a FIFOBuff_TS option" where
  "FIFOBuff_TS_ctor_buf os buf max_cap = init os (FIFOBuff_ctor_buf buf max_cap)"

text \<open>No semaphore exists under either of the two names.\<close>

definition fresh_names :: "namespace \<Rightarrow> bool" where
  "fresh_names os \<longleftrightarrow> os ''TSQueue_AddSem'' = None \<and> os ''TSQueue_RemSem'' = None"

text \<open>
  The methods, statement by statement. A thread inside a method is at one of these
  program points, which carry the method's arguments. The flag tells the blocking
  variant (\<open>add_wait\<close>, \<open>remove_wait\<close>) from the non-blocking one (\<open>add\<close>, \<open>remove\<close>);
  the two differ in their first statement and in what they return.

  \<^item> \<open>Add_claim\<close>: \<open>sem_trywait(add_sem)\<close>, line 207, or \<open>sem_wait(add_sem)\<close>, line 226;
  \<^item> \<open>Add_lock\<close>: \<open>pthread_mutex_lock\<close>, lines 208 and 228;
  \<^item> \<open>Add_body\<close>: \<open>fifo.add(item)\<close>, lines 209 and 229;
  \<^item> \<open>Add_unlock\<close>: \<open>pthread_mutex_unlock\<close>, lines 210 and 230;
  \<^item> \<open>Add_post\<close>: \<open>sem_post(rem_sem)\<close>, lines 212 and 232;
  \<^item> \<open>Peek_lock\<close>, \<open>Peek_body\<close>, \<open>Peek_unlock\<close>: lines 241, 243 to 246, 248;
  \<^item> \<open>Rem_claim\<close> to \<open>Rem_post\<close>: lines 257 to 262 and 276 to 282;
  \<^item> \<open>Returned\<close>: the \<open>return\<close>, with the value returned (\<open>None\<close> for \<open>void\<close>) and
    the object behind the pointer argument.
\<close>

datatype 'a pc =
    Add_claim bool 'a
  | Add_lock bool 'a
  | Add_body bool 'a
  | Add_unlock bool
  | Add_post bool
  | Peek_lock "'a slot option"
  | Peek_body "'a slot option"
  | Peek_unlock bool "'a slot option"
  | Rem_claim bool "'a slot option"
  | Rem_lock bool "'a slot option"
  | Rem_body bool "'a slot option"
  | Rem_unlock bool "'a slot option"
  | Rem_post bool "'a slot option"
  | Returned "bool option" "'a slot option"

datatype 'a progress =
    Next "'a FIFOBuff_TS" "'a pc"
  | Suspended
  | Faulted fault
  | Finished "bool option" "'a slot option"

text \<open>One statement of thread \<open>t\<close>. The results of \<open>fifo.add\<close> and \<open>fifo.remove\<close> are dropped, as in the source.\<close>

fun thread_step :: "nat \<Rightarrow> 'a FIFOBuff_TS \<Rightarrow> 'a pc \<Rightarrow> 'a progress" where
  "thread_step t s (Add_claim False item) =
     (case sem_trywait (add_sem s) of
        (rc, v) \<Rightarrow>
          if rc = 0 then Next (s\<lparr>add_sem := v\<rparr>) (Add_lock False item)
          else Next (s\<lparr>add_sem := v\<rparr>) (Returned (Some False) None))"
| "thread_step t s (Add_claim True item) =
     (case sem_wait (add_sem s) of
        None \<Rightarrow> Suspended
      | Some v \<Rightarrow> Next (s\<lparr>add_sem := v\<rparr>) (Add_lock True item))"
| "thread_step t s (Add_lock w item) =
     (case pthread_mutex_lock t (mutex s) of
        None \<Rightarrow> Suspended
      | Some m \<Rightarrow> Next (s\<lparr>mutex := m\<rparr>) (Add_body w item))"
| "thread_step t s (Add_body w item) =
     (case FIFOBuff_add (fifo s) item of
        Inl e \<Rightarrow> Faulted e
      | Inr (r, f) \<Rightarrow> Next (s\<lparr>fifo := f\<rparr>) (Add_unlock w))"
| "thread_step t s (Add_unlock w) =
     Next (s\<lparr>mutex := pthread_mutex_unlock (mutex s)\<rparr>) (Add_post w)"
| "thread_step t s (Add_post w) =
     Next (s\<lparr>rem_sem := sem_post (rem_sem s)\<rparr>)
          (Returned (if w then None else Some True) None)"
| "thread_step t s (Peek_lock item) =
     (case pthread_mutex_lock t (mutex s) of
        None \<Rightarrow> Suspended
      | Some m \<Rightarrow> Next (s\<lparr>mutex := m\<rparr>) (Peek_body item))"
| "thread_step t s (Peek_body item) =
     (if FIFOBuff_size (fifo s) > 0 then
        (case FIFOBuff_peek (fifo s) item of
           Inl e \<Rightarrow> Faulted e
         | Inr (r, out, f) \<Rightarrow> Next (s\<lparr>fifo := f\<rparr>) (Peek_unlock True out))
      else Next s (Peek_unlock False item))"
| "thread_step t s (Peek_unlock peek_ok item) =
     Next (s\<lparr>mutex := pthread_mutex_unlock (mutex s)\<rparr>) (Returned (Some peek_ok) item)"
| "thread_step t s (Rem_claim False pitem) =
     (case sem_trywait (rem_sem s) of
        (rc, v) \<Rightarrow>
          if rc = 0 then Next (s\<lparr>rem_sem := v\<rparr>) (Rem_lock False pitem)
          else Next (s\<lparr>rem_sem := v\<rparr>) (Returned (Some False) pitem))"
| "thread_step t s (Rem_claim True pitem) =
     (case sem_wait (rem_sem s) of
        None \<Rightarrow> Suspended
      | Some v \<Rightarrow> Next (s\<lparr>rem_sem := v\<rparr>) (Rem_lock True pitem))"
| "thread_step t s (Rem_lock w pitem) =
     (case pthread_mutex_lock t (mutex s) of
        None \<Rightarrow> Suspended
      | Some m \<Rightarrow> Next (s\<lparr>mutex := m\<rparr>) (Rem_body w pitem))"
| "thread_step t s (Rem_body w pitem) =
     (case FIFOBuff_remove (fifo s) pitem of
        Inl e \<Rightarrow> Faulted e
      | Inr (r, out, f) \<Rightarrow> Next (s\<lparr>fifo := f\<rparr>) (Rem_unlock w out))"
| "thread_step t s (Rem_unlock w pitem) =
     Next (s\<lparr>mutex := pthread_mutex_unlock (mutex s)\<rparr>) (Rem_post w pitem)"
| "thread_step t s (Rem_post w pitem) =
     Next (s\<lparr>add_sem := sem_post (add_sem s)\<rparr>)
          (Returned (if w then None else Some True) pitem)"
| "thread_step t s (Returned r pitem) = Finished r pitem"

text \<open>The number of statements a thread at a program point has yet to execute, at most.\<close>

fun remaining :: "'a pc \<Rightarrow> nat" where
  "remaining (Add_claim w item) = 5"
| "remaining (Add_lock w item) = 4"
| "remaining (Add_body w item) = 3"
| "remaining (Add_unlock w) = 2"
| "remaining (Add_post w) = 1"
| "remaining (Peek_lock item) = 3"
| "remaining (Peek_body item) = 2"
| "remaining (Peek_unlock peek_ok item) = 1"
| "remaining (Rem_claim w pitem) = 5"
| "remaining (Rem_lock w pitem) = 4"
| "remaining (Rem_body w pitem) = 3"
| "remaining (Rem_unlock w pitem) = 2"
| "remaining (Rem_post w pitem) = 1"
| "remaining (Returned r pitem) = 0"

text \<open>
  A call that no other thread interrupts: thread \<open>t\<close> runs from a program point to the
  method's return. It either returns, stays suspended, or faults.
\<close>

datatype 'a outcome =
    Returns "bool option" "'a slot option" "'a FIFOBuff_TS"
  | Blocks
  | Faults fault

function call :: "nat \<Rightarrow> 'a FIFOBuff_TS \<Rightarrow> 'a pc \<Rightarrow> 'a outcome" where
  "call t s p =
     (case thread_step t s p of
        Next s' p' \<Rightarrow> call t s' p'
      | Suspended \<Rightarrow> Blocks
      | Faulted e \<Rightarrow> Faults e
      | Finished r pitem \<Rightarrow> Returns r pitem s)"
  by pat_completeness auto
termination
proof (relation "measure (\<lambda>(t, s, p). remaining p)")
  show "wf (measure (\<lambda>(t, s, p). remaining p))" by simp
next
  fix t :: nat and s s' :: "'a FIFOBuff_TS" and p p' :: "'a pc"
  assume "thread_step t s p = Next s' p'"
  then have "remaining p' < remaining p"
    by (cases "(t, s, p)" rule: thread_step.cases)
       (auto simp: sem_trywait_def sem_wait_def split: if_splits option.splits sum.splits prod.splits)
  then show "((t, s', p'), (t, s, p)) \<in> measure (\<lambda>(t, s, p). remaining p)" by simp
qed

declare call.simps [simp del]

text \<open>The five public methods, called by thread \<open>t\<close> with no other thread running.\<close>

definition FIFOBuff_TS_add :: "nat \<Rightarrow> 'a FIFOBuff_TS \<Rightarrow> 'a \<Rightarrow> 'a outcome" where
  "FIFOBuff_TS_add t s item = call t s (Add_claim False item)"

definition FIFOBuff_TS_add_wait :: "nat \<Rightarrow> 'a FIFOBuff_TS \<Rightarrow> 'a \<Rightarrow> 'a outcome" where
  "FIFOBuff_TS_add_wait t s item = call t s (Add_claim True item)"

definition FIFOBuff_TS_peek :: "nat \<Rightarrow> 'a FIFOBuff_TS \<Rightarrow> 'a slot option \<Rightarrow> 'a outcome" where
  "FIFOBuff_TS_peek t s item = call t s (Peek_lock item)"

definition FIFOBuff_TS_remove :: "nat \<Rightarrow> 'a FIFOBuff_TS \<Rightarrow> 'a slot option \<Rightarrow> 'a outcome" where
  "FIFOBuff_TS_remove t s pitem = call t s (Rem_claim False pitem)"

definition FIFOBuff_TS_remove_wait :: "nat \<Rightarrow> 'a FIFOBuff_TS \<Rightarrow> 'a slot option \<Rightarrow> 'a outcome" where
  "FIFOBuff_TS_remove_wait t s pitem = call t s (Rem_claim True pitem)"

text \<open>
  Several threads sharing one queue. Each thread is outside any call (\<open>None\<close>) or at a
  program point of a method. A step of the system is a step of one thread: it enters a
  method, executes one statement, or returns. A thread whose statement would suspend it
  has no step in that state.
\<close>

record 'a system =
  shared :: "'a FIFOBuff_TS"
  threads :: "'a pc option list"

fun entry :: "'a pc \<Rightarrow> bool" where
  "entry (Add_claim w item) = True"
| "entry (Peek_lock item) = True"
| "entry (Rem_claim w pitem) = True"
| "entry _ = False"

inductive sys_step :: "'a system \<Rightarrow> 'a system \<Rightarrow> bool" where
  enter: "t < length (threads \<sigma>) \<Longrightarrow> threads \<sigma> ! t = None \<Longrightarrow> entry p \<Longrightarrow>
          sys_step \<sigma> (\<sigma>\<lparr>threads := (threads \<sigma>)[t := Some p]\<rparr>)"
| statement: "t < length (threads \<sigma>) \<Longrightarrow> threads \<sigma> ! t = Some p \<Longrightarrow>
          thread_step t (shared \<sigma>) p = Next s' p' \<Longrightarrow>
          sys_step \<sigma> (\<sigma>\<lparr>shared := s', threads := (threads \<sigma>)[t := Some p']\<rparr>)"
| leave: "t < length (threads \<sigma>) \<Longrightarrow> threads \<sigma> ! t = Some p \<Longrightarrow>
          thread_step t (shared \<sigma>) p = Finished r pitem \<Longrightarrow>
          sys_step \<sigma> (\<sigma>\<lparr>threads := (threads \<sigma>)[t := None]\<rparr>)"

text \<open>
  The states a system of \<open>n\<close> threads reaches from a queue constructed with capacity
  \<open>max_cap\<close> in the world \<open>os\<close>, when the construction left it with two semaphores.
\<close>

inductive reachable :: "namespace \<Rightarrow> nat \<Rightarrow> nat \<Rightarrow> 'a system \<Rightarrow> bool"
  for os :: namespace and max_cap :: nat and n :: nat where
  initial: "FIFOBuff_TS_ctor os max_cap = Some s \<Longrightarrow>
            reachable os max_cap n \<lparr>shared = s, threads = replicate n None\<rparr>"
| step: "reachable os max_cap n \<sigma> \<Longrightarrow> sys_step \<sigma> \<sigma>' \<Longrightarrow> reachable os max_cap n \<sigma>'"

text \<open>A quiescent state: no thread is inside a method.\<close>

definition quiescent :: "'a system \<Rightarrow> bool" where
  "quiescent \<sigma> \<longleftrightarrow> list_all (\<lambda>th. th = None) (threads \<sigma>)"

text \<open>
  A thread holds a permit from the statement that claimed it to the statement that
  releases the complementary one.
\<close>

fun holds_permit :: "'a pc option \<Rightarrow> nat" where
  "holds_permit (Some (Add_lock w item)) = 1"
| "holds_permit (Some (Add_body w item)) = 1"
| "holds_permit (Some (Add_unlock w)) = 1"
| "holds_permit (Some (Add_post w)) = 1"
| "holds_permit (Some (Rem_lock w pitem)) = 1"
| "holds_permit (Some (Rem_body w pitem)) = 1"
| "holds_permit (Some (Rem_unlock w pitem)) = 1"
| "holds_permit (Some (Rem_post w pitem)) = 1"
| "holds_permit _ = 0"

definition permits_in_flight :: "'a system \<Rightarrow> nat" where
  "permits_in_flight \<sigma> = sum_list (map holds_permit (threads \<sigma>))"

text \<open>The program points between \<open>pthread_mutex_lock\<close> and \<open>pthread_mutex_unlock\<close>.\<close>

fun critical :: "'a pc option \<Rightarrow> bool" where
  "critical (Some (Add_body w item)) = True"
| "critical (Some (Add_unlock w)) = True"
| "critical (Some (Peek_body item)) = True"
| "critical (Some (Peek_unlock peek_ok item)) = True"
| "critical (Some (Rem_body w pitem)) = True"
| "critical (Some (Rem_unlock w pitem)) = True"
| "critical _ = False"

text \<open>
  The bookkeeping behind the two semaphores. A thread is owed a free slot from the
  statement that claimed a unit of \<open>add_sem\<close> until its element is in the buffer, and
  from the statement that took an element out until the unit of \<open>add_sem\<close> is released.
  It is owed an element from the claim of a unit of \<open>rem_sem\<close> until the element is
  out, and from the insertion of an element until the unit of \<open>rem_sem\<close> is released.
\<close>

fun awaiting_slot :: "'a pc option \<Rightarrow> nat" where
  "awaiting_slot (Some (Add_lock w item)) = 1"
| "awaiting_slot (Some (Add_body w item)) = 1"
| "awaiting_slot (Some (Rem_unlock w pitem)) = 1"
| "awaiting_slot (Some (Rem_post w pitem)) = 1"
| "awaiting_slot _ = 0"

fun awaiting_item :: "'a pc option \<Rightarrow> nat" where
  "awaiting_item (Some (Add_unlock w)) = 1"
| "awaiting_item (Some (Add_post w)) = 1"
| "awaiting_item (Some (Rem_lock w pitem)) = 1"
| "awaiting_item (Some (Rem_body w pitem)) = 1"
| "awaiting_item _ = 0"

text \<open>
  The protocol invariant: the buffer is well-formed, the free units, the slots owed and
  the elements stored do not exceed the capacity, and the filled units and the elements
  owed add up to the elements stored.
\<close>

definition protocol_inv :: "'a system \<Rightarrow> bool" where
  "protocol_inv \<sigma> \<longleftrightarrow>
     well_formed (fifo (shared \<sigma>)) \<and>
     add_sem (shared \<sigma>) + sum_list (map awaiting_slot (threads \<sigma>)) + fifo_size (fifo (shared \<sigma>))
       \<le> fifo_cap (fifo (shared \<sigma>)) \<and>
     rem_sem (shared \<sigma>) + sum_list (map awaiting_item (threads \<sigma>)) = fifo_size (fifo (shared \<sigma>))"

section \<open>Properties of the ring buffer\<close>


lemma mod_shift_neq:
  fixes c :: nat
  assumes "k < j" "j - k < c"
  shows "(h + k) mod c \<noteq> (h + j) mod c"
proof
  assume eq: "(h + k) mod c = (h + j) mod c"
  have le: "h + k \<le> h + j" using assms by simp
  have "c dvd (h + j) - (h + k)"
    using mod_eq_dvd_iff_nat[OF le, of c] eq by simp
  then have "c dvd j - k" by simp
  then show False using assms by (simp add: nat_dvd_not_less)
qed

lemma wf_tail_lt: 
  assumes "well_formed fb" "0 < fifo_cap fb"
  shows "tail fb < fifo_cap fb"
proof -
  have "tail fb = (head fb + fifo_size fb) mod fifo_cap fb"
    using assms by (simp add: well_formed_def)
  then show ?thesis using assms(2) by simp
qed

lemma wf_tail_in:
  assumes "well_formed fb" "0 < fifo_cap fb"
  shows "tail fb < length (buffer fb)"
proof -
  have "fifo_cap fb \<le> length (buffer fb)" using assms by (simp add: well_formed_def)
  then show ?thesis using wf_tail_lt[OF assms] by simp
qed

lemma wf_head_in: "well_formed fb \<Longrightarrow> 0 < fifo_cap fb \<Longrightarrow> head fb < length (buffer fb)"
  by (simp add: well_formed_def)

lemma add_ok:
  assumes "well_formed fb" "fifo_size fb < fifo_cap fb"
  shows "FIFOBuff_add fb item =
     Inr (True, fb\<lparr>buffer := (buffer fb)[tail fb := Live item],
                   tail := (tail fb + 1) mod fifo_cap fb,
                   fifo_size := fifo_size fb + 1,
                   lifecycle := lifecycle fb @ [Ctor (tail fb)]\<rparr>)"
  using assms wf_tail_in[of fb]
  by (simp add: FIFOBuff_add_def placement_new_def umod_def)

lemma remove_ok:
  assumes "well_formed fb" "0 < fifo_size fb"
  shows "FIFOBuff_remove fb pitem =
     Inr (True, (case pitem of None \<Rightarrow> None | Some _ \<Rightarrow> Some (buffer fb ! head fb)),
          fb\<lparr>buffer := (buffer fb)[tail fb := finalize (buffer fb ! tail fb)],
             head := (head fb + 1) mod fifo_cap fb,
             fifo_size := fifo_size fb - 1,
             lifecycle := lifecycle fb @ [Dtor (tail fb)]\<rparr>)"
proof -
  have c: "0 < fifo_cap fb" using assms by (simp add: well_formed_def)
  show ?thesis
    using assms c wf_tail_in[of fb] wf_head_in[of fb]
    by (cases pitem) (simp_all add: FIFOBuff_remove_def slot_at_def destroy_at_def umod_def)
qed

lemma peek_ok:
  assumes "well_formed fb" "0 < fifo_size fb"
  shows "FIFOBuff_peek fb (Some c) = Inr (True, Some (buffer fb ! tail fb), fb)"
proof -
  have c: "0 < fifo_cap fb" using assms by (simp add: well_formed_def)
  show ?thesis
    using assms c wf_tail_in[of fb]
    by (simp add: FIFOBuff_peek_def slot_at_def)
qed

lemma add_full: "\<not> fifo_size fb < fifo_cap fb \<Longrightarrow> FIFOBuff_add fb item = Inr (False, fb)"
  by (simp add: FIFOBuff_add_def)

lemma remove_empty: "fifo_size fb = 0 \<Longrightarrow> FIFOBuff_remove fb pitem = Inr (False, pitem, fb)"
  by (simp add: FIFOBuff_remove_def)

lemma peek_empty: "fifo_size fb = 0 \<Longrightarrow> FIFOBuff_peek fb pitem = Inr (False, pitem, fb)"
  by (simp add: FIFOBuff_peek_def)

lemma wf_ctor: "well_formed (FIFOBuff_ctor cap)"
  by (simp add: well_formed_def FIFOBuff_ctor_def)

lemma wf_ctor_buf: "cap \<le> length buf \<Longrightarrow> well_formed (FIFOBuff_ctor_buf buf cap)"
  by (simp add: well_formed_def FIFOBuff_ctor_buf_def)

lemma wf_after_add:
  assumes "well_formed fb" "fifo_size fb < fifo_cap fb"
  shows "well_formed (fb\<lparr>buffer := (buffer fb)[tail fb := Live item],
               tail := (tail fb + 1) mod fifo_cap fb,
               fifo_size := fifo_size fb + 1,
               lifecycle := lifecycle fb @ [Ctor (tail fb)]\<rparr>)"
proof -
  have c: "0 < fifo_cap fb" using assms by simp
  have t: "tail fb = (head fb + fifo_size fb) mod fifo_cap fb"
    and h: "head fb < fifo_cap fb" and l: "fifo_cap fb \<le> length (buffer fb)"
    using assms c by (simp_all add: well_formed_def)
  have "(tail fb + 1) mod fifo_cap fb = ((head fb + fifo_size fb) mod fifo_cap fb + 1) mod fifo_cap fb"
    using t by simp
  also have "\<dots> = (head fb + fifo_size fb + 1) mod fifo_cap fb"
    by (rule mod_add_left_eq)
  finally have t': "(tail fb + 1) mod fifo_cap fb = (head fb + (fifo_size fb + 1)) mod fifo_cap fb"
    by (simp add: add.assoc)
  show ?thesis
    unfolding well_formed_def using c t' h l assms(2) by simp
qed

lemma wf_after_remove:
  assumes "well_formed fb" "0 < fifo_size fb"
  shows "well_formed (fb\<lparr>buffer := (buffer fb)[tail fb := finalize (buffer fb ! tail fb)],
             head := (head fb + 1) mod fifo_cap fb,
             fifo_size := fifo_size fb - 1,
             lifecycle := lifecycle fb @ [Dtor (tail fb)]\<rparr>)"
proof -
  have c: "0 < fifo_cap fb" using assms by (simp add: well_formed_def)
  have t: "tail fb = (head fb + fifo_size fb) mod fifo_cap fb"
    using assms c by (simp add: well_formed_def)
  have "((head fb + 1) mod fifo_cap fb + (fifo_size fb - 1)) mod fifo_cap fb
        = ((head fb + 1) + (fifo_size fb - 1)) mod fifo_cap fb"
    by (rule mod_add_left_eq)
  also have "(head fb + 1) + (fifo_size fb - 1) = head fb + fifo_size fb"
    using assms by simp
  finally have t': "tail fb = ((head fb + 1) mod fifo_cap fb + (fifo_size fb - 1)) mod fifo_cap fb"
    using t by simp
  have s: "fifo_size fb - 1 \<le> fifo_cap fb" "fifo_cap fb \<le> length (buffer fb)"
    using assms by (auto simp: well_formed_def)
  have h: "(head fb + 1) mod fifo_cap fb < fifo_cap fb" using c by simp
  show ?thesis
    unfolding well_formed_def using c t' s h by simp
qed

lemma wf_in_bounds: "well_formed fb \<Longrightarrow> 0 < fifo_cap fb \<Longrightarrow> in_bounds fb"
  by (simp add: well_formed_def in_bounds_def)


lemma exec_wf:
  assumes "well_formed fb"
  shows "case exec fb c of
           Inr (r, out, fb') \<Rightarrow> well_formed fb' \<and> fifo_cap fb' = fifo_cap fb
         | Inl e \<Rightarrow> e = NullDeref \<and> null_peek c"
proof (cases c)
  case (Add item)
  show ?thesis
  proof (cases "fifo_size fb < fifo_cap fb")
    case True
    then show ?thesis using Add assms wf_after_add[OF assms True, of item]
      by (simp add: add_ok)
  next
    case False
    then show ?thesis using Add assms by (simp add: add_full)
  qed
next
  case (Remove pitem)
  show ?thesis
  proof (cases "fifo_size fb = 0")
    case True
    then show ?thesis using Remove assms by (simp add: remove_empty)
  next
    case False
    then have pos: "0 < fifo_size fb" by simp
    show ?thesis using Remove wf_after_remove[OF assms pos]
      by (simp add: remove_ok[OF assms pos])
  qed
next
  case (Peek pitem)
  show ?thesis
  proof (cases "fifo_size fb = 0")
    case True
    then show ?thesis using Peek assms by (simp add: peek_empty)
  next
    case False
    then have pos: "0 < fifo_size fb" by simp
    show ?thesis
    proof (cases pitem)
      case None
      then show ?thesis using Peek pos by (simp add: FIFOBuff_peek_def)
    next
      case (Some c)
      then show ?thesis using Peek assms by (simp add: peek_ok[OF assms pos])
    qed
  qed
qed

lemma run_wf:
  assumes "well_formed fb"
  shows "case run fb cs of
           Inr (outs, fb') \<Rightarrow> well_formed fb' \<and> fifo_cap fb' = fifo_cap fb
         | Inl e \<Rightarrow> e = NullDeref \<and> \<not> list_all (\<lambda>c. \<not> null_peek c) cs"
  using assms
proof (induction cs arbitrary: fb)
  case Nil
  then show ?case by simp
next
  case (Cons c cs)
  show ?case
  proof (cases "exec fb c")
    case (Inl e)
    then show ?thesis using exec_wf[OF Cons.prems, of c] by simp
  next
    case (Inr t)
    obtain r out fb1 where t: "t = (r, out, fb1)" by (cases t) auto
    have w1: "well_formed fb1" and c1: "fifo_cap fb1 = fifo_cap fb"
      using exec_wf[OF Cons.prems, of c] Inr t by simp_all
    show ?thesis using Cons.IH[OF w1] Inr t c1
      by (auto split: sum.splits)
  qed
qed


lemma length_occupied [simp]: "length (occupied fb) = fifo_size fb"
  by (simp add: occupied_def)

lemma length_contents [simp]: "length (contents fb) = fifo_size fb"
  by (simp add: contents_def)

lemma tail_not_occupied:
  assumes "well_formed fb" "fifo_size fb < fifo_cap fb"
  shows "tail fb \<notin> set (occupied fb)"
proof
  assume "tail fb \<in> set (occupied fb)"
  then obtain k where k: "k < fifo_size fb" "tail fb = (head fb + k) mod fifo_cap fb"
    by (auto simp: occupied_def)
  have "tail fb = (head fb + fifo_size fb) mod fifo_cap fb"
    using assms by (simp add: well_formed_def)
  moreover have "(head fb + k) mod fifo_cap fb \<noteq> (head fb + fifo_size fb) mod fifo_cap fb"
    using k(1) assms(2) by (intro mod_shift_neq) simp_all
  ultimately show False using k(2) by simp
qed

lemma tail_not_later_occupied:
  assumes "well_formed fb" "0 < fifo_size fb"
  shows "tail fb \<notin> set (tl (occupied fb))"
proof
  assume "tail fb \<in> set (tl (occupied fb))"
  then have "tail fb \<in> set (map (\<lambda>k. (head fb + k) mod fifo_cap fb) (tl [0..<fifo_size fb]))"
    by (simp add: occupied_def map_tl[symmetric])
  then obtain k where k: "Suc 0 \<le> k" "k < fifo_size fb" "tail fb = (head fb + k) mod fifo_cap fb"
    by auto
  have "tail fb = (head fb + fifo_size fb) mod fifo_cap fb" "fifo_size fb \<le> fifo_cap fb"
    using assms by (auto simp: well_formed_def)
  moreover have "(head fb + k) mod fifo_cap fb \<noteq> (head fb + fifo_size fb) mod fifo_cap fb"
    using k(1,2) calculation(2) by (intro mod_shift_neq) simp_all
  ultimately show False using k(3) by simp
qed

lemma occupied_after_add:
  assumes "well_formed fb" "fifo_size fb < fifo_cap fb"
  shows "occupied (fb\<lparr>buffer := m, tail := t, fifo_size := fifo_size fb + 1, lifecycle := l\<rparr>)
         = occupied fb @ [tail fb]"
  using assms by (simp add: occupied_def well_formed_def)

lemma occupied_after_remove:
  assumes "well_formed fb" "0 < fifo_size fb"
  shows "occupied (fb\<lparr>buffer := m, head := (head fb + 1) mod fifo_cap fb,
                     fifo_size := fifo_size fb - 1, lifecycle := l\<rparr>)
         = tl (occupied fb)"
proof -
  have "[Suc 0..<fifo_size fb] = map Suc [0..<fifo_size fb - 1]"
    using assms(2) by (simp add: map_Suc_upt)
  then have "tl (occupied fb) = map (\<lambda>k. (head fb + k) mod fifo_cap fb) (map Suc [0..<fifo_size fb - 1])"
    by (simp add: occupied_def map_tl[symmetric])
  also have "\<dots> = map (\<lambda>k. ((head fb + 1) mod fifo_cap fb + k) mod fifo_cap fb) [0..<fifo_size fb - 1]"
    by (simp add: mod_add_left_eq)
  finally show ?thesis by (simp add: occupied_def)
qed

lemma map_nth_update_other: "i \<notin> set is \<Longrightarrow> map (\<lambda>j. m[i := v] ! j) is = map (\<lambda>j. m ! j) is"
  by (induction "is") auto

lemma contents_after_add:
  assumes "well_formed fb" "fifo_size fb < fifo_cap fb"
  shows "contents (fb\<lparr>buffer := (buffer fb)[tail fb := Live item],
               tail := (tail fb + 1) mod fifo_cap fb,
               fifo_size := fifo_size fb + 1,
               lifecycle := lifecycle fb @ [Ctor (tail fb)]\<rparr>)
         = contents fb @ [Live item]"
proof -
  have c: "0 < fifo_cap fb" using assms by simp
  show ?thesis
    unfolding contents_def occupied_after_add[OF assms]
    using tail_not_occupied[OF assms] wf_tail_in[OF assms(1) c]
    by (simp add: map_nth_update_other)
qed

lemma contents_after_remove:
  assumes "well_formed fb" "0 < fifo_size fb"
  shows "contents (fb\<lparr>buffer := (buffer fb)[tail fb := finalize (buffer fb ! tail fb)],
             head := (head fb + 1) mod fifo_cap fb,
             fifo_size := fifo_size fb - 1,
             lifecycle := lifecycle fb @ [Dtor (tail fb)]\<rparr>)
         = tl (contents fb)"
  unfolding contents_def occupied_after_remove[OF assms]
  using tail_not_later_occupied[OF assms]
  by (simp add: map_nth_update_other map_tl[symmetric])

lemma hd_contents:
  assumes "well_formed fb" "0 < fifo_size fb"
  shows "hd (contents fb) = buffer fb ! head fb"
proof -
  have "0 < fifo_cap fb" "head fb < fifo_cap fb" using assms by (auto simp: well_formed_def)
  then show ?thesis using assms(2)
    by (simp add: contents_def occupied_def hd_map upt_conv_Cons)
qed


lemma run_fifo:
  assumes "well_formed fb" "contents fb = map Live q" "within_capacity (fifo_cap fb) (length q) cs"
  shows "\<exists>outs fb'. run fb cs = Inr (outs, fb') \<and> list_all fst outs \<and>
           delivered cs outs = map2 owed (removes cs) (q @ adds cs) \<and>
           well_formed fb' \<and> fifo_cap fb' = fifo_cap fb \<and>
           contents fb' = map Live (drop (length (removes cs)) (q @ adds cs))"
  using assms
proof (induction cs arbitrary: fb q)
  case Nil
  then show ?case by simp
next
  case (Cons c cs)
  have n: "fifo_size fb = length q"
    using Cons.prems(2) length_contents[of fb] by simp
  show ?case
  proof (cases c)
    case (Add item)
    have lt: "fifo_size fb < fifo_cap fb"
      and rest: "within_capacity (fifo_cap fb) (length (q @ [item])) cs"
      using Cons.prems(3) Add n by simp_all
    define fb1 where "fb1 = fb\<lparr>buffer := (buffer fb)[tail fb := Live item],
                   tail := (tail fb + 1) mod fifo_cap fb,
                   fifo_size := fifo_size fb + 1,
                   lifecycle := lifecycle fb @ [Ctor (tail fb)]\<rparr>"
    have e: "exec fb c = Inr (True, None, fb1)"
      using Add add_ok[OF Cons.prems(1) lt, of item] by (simp add: fb1_def)
    have w1: "well_formed fb1" unfolding fb1_def by (rule wf_after_add[OF Cons.prems(1) lt])
    have c1: "fifo_cap fb1 = fifo_cap fb" by (simp add: fb1_def)
    have q1: "contents fb1 = map Live (q @ [item])"
      unfolding fb1_def using contents_after_add[OF Cons.prems(1) lt, of item] Cons.prems(2)
      by simp
    obtain outs fb' where r: "run fb1 cs = Inr (outs, fb')" "list_all fst outs"
      "delivered cs outs = map2 owed (removes cs) ((q @ [item]) @ adds cs)"
      "well_formed fb'" "fifo_cap fb' = fifo_cap fb1"
      "contents fb' = map Live (drop (length (removes cs)) ((q @ [item]) @ adds cs))"
      using Cons.IH[OF w1 q1] rest c1 by auto
    show ?thesis
      using e r c1 Add by simp
  next
    case (Remove pitem)
    have pos: "0 < fifo_size fb"
      and rest0: "within_capacity (fifo_cap fb) (length q - 1) cs"
      using Cons.prems(3) Remove n by simp_all
    obtain y q' where q: "q = y # q'" using pos n by (cases q) auto
    define fb1 where "fb1 = fb\<lparr>buffer := (buffer fb)[tail fb := finalize (buffer fb ! tail fb)],
             head := (head fb + 1) mod fifo_cap fb,
             fifo_size := fifo_size fb - 1,
             lifecycle := lifecycle fb @ [Dtor (tail fb)]\<rparr>"
    have hd: "buffer fb ! head fb = Live y"
      using hd_contents[OF Cons.prems(1) pos] Cons.prems(2) q by simp
    have e: "exec fb c = Inr (True, owed pitem y, fb1)"
      using Remove remove_ok[OF Cons.prems(1) pos, of pitem] hd
      by (cases pitem) (simp_all add: fb1_def)
    have w1: "well_formed fb1" unfolding fb1_def by (rule wf_after_remove[OF Cons.prems(1) pos])
    have c1: "fifo_cap fb1 = fifo_cap fb" by (simp add: fb1_def)
    have q1: "contents fb1 = map Live q'"
      unfolding fb1_def using contents_after_remove[OF Cons.prems(1) pos] Cons.prems(2) q
      by simp
    have rest: "within_capacity (fifo_cap fb1) (length q') cs"
      using rest0 q c1 by simp
    obtain outs fb' where r: "run fb1 cs = Inr (outs, fb')" "list_all fst outs"
      "delivered cs outs = map2 owed (removes cs) (q' @ adds cs)"
      "well_formed fb'" "fifo_cap fb' = fifo_cap fb1"
      "contents fb' = map Live (drop (length (removes cs)) (q' @ adds cs))"
      using Cons.IH[OF w1 q1 rest] by auto
    show ?thesis
      using e r c1 Remove q by simp
  next
    case (Peek pitem)
    then show ?thesis using Cons.prems(3) by simp
  qed
qed

lemma dtor_empty: "fifo_size fb = 0 \<Longrightarrow> FIFOBuff_dtor fb = Inr fb"
  by (subst FIFOBuff_dtor.simps) simp

lemma dtor_step:
  assumes "0 < fifo_size fb" "head fb < length (buffer fb)" "0 < fifo_cap fb"
  shows "FIFOBuff_dtor fb =
         FIFOBuff_dtor (fb\<lparr>buffer := (buffer fb)[head fb := finalize (buffer fb ! head fb)],
                          head := (head fb + 1) mod fifo_cap fb,
                          fifo_size := fifo_size fb - 1,
                          lifecycle := lifecycle fb @ [Dtor (head fb)]\<rparr>)"
  using assms by (subst FIFOBuff_dtor.simps) (simp add: destroy_at_def umod_def)

lemma cleanup_run:
  "run (FIFOBuff_ctor 3) [Add (1::nat), Add 2, Add 3, Remove None, Remove None] =
     Inr ([(True, None), (True, None), (True, None), (True, None), (True, None)],
          \<lparr>buffer = [Dead 1, Live 2, Live 3], head = 2, tail = 0, fifo_size = 1,
           fifo_cap = 3, free_mem = True,
           lifecycle = [Ctor 0, Ctor 1, Ctor 2, Dtor 0, Dtor 0]\<rparr>)"
  by code_simp

lemma cleanup_dtor:
  "FIFOBuff_dtor \<lparr>buffer = [Dead (1::nat), Live 2, Live 3], head = 2, tail = 0, fifo_size = 1,
           fifo_cap = 3, free_mem = True,
           lifecycle = [Ctor 0, Ctor 1, Ctor 2, Dtor 0, Dtor 0]\<rparr> =
   Inr \<lparr>buffer = [Dead 1, Live 2, Dead 3], head = 0, tail = 0, fifo_size = 0,
           fifo_cap = 3, free_mem = True,
           lifecycle = [Ctor 0, Ctor 1, Ctor 2, Dtor 0, Dtor 0, Dtor 2]\<rparr>"
  by (simp add: dtor_step dtor_empty eval_nat_numeral)

lemma instance_count_append:
  "instance_count (es @ [Ctor i]) = instance_count es + 1"
  "instance_count (es @ [Dtor i]) = instance_count es - 1"
  by (simp_all add: instance_count_def)

lemma exec_instance_count:
  assumes "exec fb c = Inr (r, out, fb')"
  shows "instance_count (lifecycle fb') - int (fifo_size fb')
         = instance_count (lifecycle fb) - int (fifo_size fb)"
proof (cases c)
  case (Add item)
  then show ?thesis using assms
    by (auto simp: FIFOBuff_add_def instance_count_append split: if_splits sum.splits)
next
  case (Remove pitem)
  then show ?thesis using assms
    by (auto simp: FIFOBuff_remove_def instance_count_append split: if_splits sum.splits)
next
  case (Peek pitem)
  then show ?thesis using assms
    by (auto simp: FIFOBuff_peek_def split: if_splits sum.splits option.splits)
qed

lemma run_instance_count:
  assumes "run fb cs = Inr (outs, fb')"
  shows "instance_count (lifecycle fb') - int (fifo_size fb')
         = instance_count (lifecycle fb) - int (fifo_size fb)"
  using assms
proof (induction cs arbitrary: fb outs)
  case Nil
  then show ?case by simp
next
  case (Cons c cs)
  from Cons.prems obtain r out fb1 rs where
    e: "exec fb c = Inr (r, out, fb1)" and r: "run fb1 cs = Inr (rs, fb')"
    by (auto split: sum.splits)
  show ?case using exec_instance_count[OF e] Cons.IH[OF r] by simp
qed

lemma dtor_instance_count:
  assumes "FIFOBuff_dtor fb = Inr fb'"
  shows "fifo_size fb' = 0 \<and>
         instance_count (lifecycle fb') = instance_count (lifecycle fb) - int (fifo_size fb)"
  using assms
proof (induction fb rule: FIFOBuff_dtor.induct)
  case (1 fb)
  show ?case
  proof (cases "0 < fifo_size fb")
    case False
    then show ?thesis using "1.prems" by (simp add: dtor_empty)
  next
    case True
    from "1.prems" True obtain m h where
      m: "destroy_at (buffer fb) (head fb) = Inr m" and
      h: "umod (head fb + 1) (fifo_cap fb) = Inr h" and
      d: "FIFOBuff_dtor (fb\<lparr>buffer := m, head := h, fifo_size := fifo_size fb - 1,
                             lifecycle := lifecycle fb @ [Dtor (head fb)]\<rparr>) = Inr fb'"
      by (subst (asm) FIFOBuff_dtor.simps) (auto split: sum.splits)
    show ?thesis
      using "1.IH"[OF True m h d] True by (simp add: instance_count_append)
  qed
qed

lemma instance_count_balanced:
  assumes "run (FIFOBuff_ctor cap) cs = Inr (outs, fb)" "FIFOBuff_dtor fb = Inr fb'"
  shows "instance_count (lifecycle fb') = 0"
  using run_instance_count[OF assms(1)] dtor_instance_count[OF assms(2)]
  by (simp add: FIFOBuff_ctor_def instance_count_def)


lemma wf_after_dtor_step:
  assumes "well_formed fb" "0 < fifo_size fb"
  shows "well_formed (fb\<lparr>buffer := (buffer fb)[head fb := finalize (buffer fb ! head fb)],
             head := (head fb + 1) mod fifo_cap fb,
             fifo_size := fifo_size fb - 1,
             lifecycle := lifecycle fb @ [Dtor (head fb)]\<rparr>)"
proof -
  have c: "0 < fifo_cap fb" using assms by (simp add: well_formed_def)
  have t: "tail fb = (head fb + fifo_size fb) mod fifo_cap fb"
    using assms c by (simp add: well_formed_def)
  have "((head fb + 1) mod fifo_cap fb + (fifo_size fb - 1)) mod fifo_cap fb
        = ((head fb + 1) + (fifo_size fb - 1)) mod fifo_cap fb"
    by (rule mod_add_left_eq)
  also have "(head fb + 1) + (fifo_size fb - 1) = head fb + fifo_size fb"
    using assms by simp
  finally have t': "tail fb = ((head fb + 1) mod fifo_cap fb + (fifo_size fb - 1)) mod fifo_cap fb"
    using t by simp
  have s: "fifo_size fb - 1 \<le> fifo_cap fb" "fifo_cap fb \<le> length (buffer fb)"
    using assms by (auto simp: well_formed_def)
  have h: "(head fb + 1) mod fifo_cap fb < fifo_cap fb" using c by simp
  show ?thesis
    unfolding well_formed_def using c t' s h by simp
qed

lemma dtor_returns:
  assumes "well_formed fb"
  shows "\<exists>fb'. FIFOBuff_dtor fb = Inr fb'"
  using assms
proof (induction "fifo_size fb" arbitrary: fb)
  case 0
  then show ?case by (simp add: dtor_empty)
next
  case (Suc k)
  have pos: "0 < fifo_size fb" using Suc.hyps(2) by simp
  have c: "0 < fifo_cap fb" using Suc.prems pos by (auto simp: well_formed_def)
  define fb1 where "fb1 = fb\<lparr>buffer := (buffer fb)[head fb := finalize (buffer fb ! head fb)],
             head := (head fb + 1) mod fifo_cap fb,
             fifo_size := fifo_size fb - 1,
             lifecycle := lifecycle fb @ [Dtor (head fb)]\<rparr>"
  have w1: "well_formed fb1" unfolding fb1_def by (rule wf_after_dtor_step[OF Suc.prems pos])
  have k: "k = fifo_size fb1" using Suc.hyps(2) by (simp add: fb1_def)
  have "FIFOBuff_dtor fb = FIFOBuff_dtor fb1"
    unfolding fb1_def by (rule dtor_step[OF pos wf_head_in[OF Suc.prems c] c])
  then show ?case using Suc.hyps(1)[OF k w1] by simp
qed


section \<open>Properties of the synchronized queue\<close>

lemma add_keeps_cap: "FIFOBuff_add fb item = Inr (r, f) \<Longrightarrow> fifo_cap f = fifo_cap fb"
  by (auto simp: FIFOBuff_add_def split: if_splits sum.splits)

lemma remove_keeps_cap: "FIFOBuff_remove fb pitem = Inr (r, out, f) \<Longrightarrow> fifo_cap f = fifo_cap fb"
  by (auto simp: FIFOBuff_remove_def split: if_splits sum.splits)

lemma peek_keeps_buffer: "FIFOBuff_peek fb pitem = Inr (r, out, f) \<Longrightarrow> f = fb"
  by (auto simp: FIFOBuff_peek_def split: if_splits sum.splits option.splits)

lemma thread_step_permits:
  assumes "thread_step t s p = Next s' p'"
  shows "add_sem s' + rem_sem s' + holds_permit (Some p')
         = add_sem s + rem_sem s + holds_permit (Some p)"
  using assms
  by (cases "(t, s, p)" rule: thread_step.cases)
     (auto simp: sem_trywait_def sem_wait_def sem_post_def FIFOBuff_size_def
           split: if_splits option.splits sum.splits prod.splits)

lemma thread_step_cap:
  assumes "thread_step t s p = Next s' p'"
  shows "fifo_cap (fifo s') = fifo_cap (fifo s)"
  using assms
  by (cases "(t, s, p)" rule: thread_step.cases)
     (auto simp: sem_trywait_def sem_wait_def dest: add_keeps_cap remove_keeps_cap peek_keeps_buffer
           split: if_splits option.splits sum.splits prod.splits)


lemma thread_step_entry_not_critical: "entry p \<Longrightarrow> \<not> critical (Some p) \<and> holds_permit (Some p) = 0"
  by (cases p) auto

lemma thread_step_finished:
  "thread_step t s p = Finished r pitem \<Longrightarrow> p = Returned r pitem"
  by (cases "(t, s, p)" rule: thread_step.cases)
     (auto simp: sem_trywait_def split: if_splits option.splits sum.splits prod.splits)

lemma sum_list_map_update:
  "t < length xs \<Longrightarrow> sum_list (map f (xs[t := y])) + f (xs ! t) = sum_list (map f xs) + (f y :: nat)"
proof (induction xs arbitrary: t)
  case Nil
  then show ?case by simp
next
  case (Cons x xs)
  show ?case
  proof (cases t)
    case 0
    then show ?thesis by simp
  next
    case (Suc k)
    then have "k < length xs" using Cons.prems by simp
    from Cons.IH[OF this] Suc show ?thesis by simp
  qed
qed

lemma sys_step_permits:
  assumes "sys_step \<sigma> \<sigma>'"
  shows "add_sem (shared \<sigma>') + rem_sem (shared \<sigma>') + permits_in_flight \<sigma>'
         = add_sem (shared \<sigma>) + rem_sem (shared \<sigma>) + permits_in_flight \<sigma>"
  using assms
proof cases
  case (enter t p)
  have "holds_permit (Some p) = 0" using enter(4) thread_step_entry_not_critical by blast
  moreover have "holds_permit (threads \<sigma> ! t) = 0" using enter(3) by simp
  ultimately show ?thesis
    using sum_list_map_update[OF enter(2), of holds_permit "Some p"] enter(1)
    by (simp add: permits_in_flight_def)
next
  case (statement t p s' p')
  show ?thesis
    using sum_list_map_update[OF statement(2), of holds_permit "Some p'"]
      thread_step_permits[OF statement(4)] statement(1,3)
    by (simp add: permits_in_flight_def)
next
  case (leave t p r pitem)
  have "p = Returned r pitem" using leave(4) by (rule thread_step_finished)
  then have "holds_permit (threads \<sigma> ! t) = 0" using leave(3) by simp
  then show ?thesis
    using sum_list_map_update[OF leave(2), of holds_permit None] leave(1)
    by (simp add: permits_in_flight_def)
qed

lemma sys_step_cap:
  assumes "sys_step \<sigma> \<sigma>'"
  shows "fifo_cap (fifo (shared \<sigma>')) = fifo_cap (fifo (shared \<sigma>)) \<and>
         length (threads \<sigma>') = length (threads \<sigma>)"
  using assms by cases (auto dest: thread_step_cap)

lemma cap_ctor:
  "fifo_cap (FIFOBuff_ctor max_cap) = max_cap"
  "FIFOBuff_capacity (FIFOBuff_ctor max_cap) = max_cap"
  by (simp_all add: FIFOBuff_ctor_def FIFOBuff_capacity_def)

lemma ctor_Some:
  assumes "FIFOBuff_TS_ctor os max_cap = Some s"
  shows "fifo s = FIFOBuff_ctor max_cap \<and> mutex s = None"
  using assms
  by (auto simp: FIFOBuff_TS_ctor_def init_def split: option.splits)

lemma ctor_fresh:
  assumes "fresh_names os" "FIFOBuff_TS_ctor os max_cap = Some s"
  shows "add_sem s = unsigned_int max_cap \<and> add_sem s \<le> max_cap \<and> rem_sem s = 0"
  using assms
  by (auto simp: FIFOBuff_TS_ctor_def init_def sem_open_def fresh_names_def cap_ctor
      unsigned_int_def split: option.splits if_splits)

lemma ctor_as_asked:
  assumes "fresh_names os" "max_cap \<le> SEM_VALUE_MAX"
  shows "FIFOBuff_TS_ctor os max_cap =
         Some \<lparr>fifo = FIFOBuff_ctor max_cap, mutex = None, add_sem = max_cap, rem_sem = 0\<rparr>"
proof -
  have "max_cap < 4294967296" using assms(2) by (simp add: SEM_VALUE_MAX_def)
  then have "unsigned_int max_cap = max_cap" by (simp add: unsigned_int_def)
  then show ?thesis
    using assms
    by (simp add: FIFOBuff_TS_ctor_def init_def sem_open_def fresh_names_def cap_ctor
        unsigned_int_def SEM_VALUE_MAX_def)
qed

lemma reachable_permits:
  assumes "reachable os max_cap n (\<sigma> :: 'a system)"
  shows "\<exists>s0 :: 'a FIFOBuff_TS. FIFOBuff_TS_ctor os max_cap = Some s0 \<and>
           add_sem (shared \<sigma>) + rem_sem (shared \<sigma>) + permits_in_flight \<sigma>
             = add_sem s0 + rem_sem s0 \<and>
           fifo_cap (fifo (shared \<sigma>)) = max_cap \<and> length (threads \<sigma>) = n"
  using assms
proof induction
  case (initial s)
  have "fifo_cap (fifo s) = max_cap" using ctor_Some[OF initial] by (simp add: cap_ctor)
  then show ?case
    using initial by (simp add: permits_in_flight_def sum_list_replicate)
next
  case (step \<sigma> \<sigma>')
  then show ?case using sys_step_permits[OF step(2)] sys_step_cap[OF step(2)] by auto
qed

lemma reachable_permits_as_asked:
  assumes "reachable os max_cap n (\<sigma> :: 'a system)" "fresh_names os"
    "max_cap \<le> SEM_VALUE_MAX"
  shows "add_sem (shared \<sigma>) + rem_sem (shared \<sigma>) + permits_in_flight \<sigma> = max_cap \<and>
         fifo_cap (fifo (shared \<sigma>)) = max_cap"
proof -
  obtain s0 :: "'a FIFOBuff_TS" where s0: "FIFOBuff_TS_ctor os max_cap = Some s0"
    and p: "add_sem (shared \<sigma>) + rem_sem (shared \<sigma>) + permits_in_flight \<sigma>
             = add_sem s0 + rem_sem s0"
    and c: "fifo_cap (fifo (shared \<sigma>)) = max_cap"
    using reachable_permits[OF assms(1)] by blast
  have "FIFOBuff_TS_ctor os max_cap =
        Some (\<lparr>fifo = FIFOBuff_ctor max_cap, mutex = None, add_sem = max_cap, rem_sem = 0\<rparr>
              :: 'a FIFOBuff_TS)"
    by (rule ctor_as_asked[OF assms(2,3)])
  then have "add_sem s0 + rem_sem s0 = max_cap" using s0 by auto
  then show ?thesis using p c by simp
qed

lemma quiescent_no_permits: "quiescent \<sigma> \<Longrightarrow> permits_in_flight \<sigma> = 0"
proof -
  have "list_all (\<lambda>th. th = None) ths \<Longrightarrow> sum_list (map holds_permit ths) = 0"
    for ths :: "'a pc option list"
    by (induction ths) auto
  then show "quiescent \<sigma> \<Longrightarrow> permits_in_flight \<sigma> = 0"
    by (simp add: quiescent_def permits_in_flight_def)
qed




lemma call_Returned: "call t s (Returned r pitem) = Returns r pitem s"
  by (subst call.simps) simp

lemma call_Add_post:
  "call t s (Add_post w) =
     Returns (if w then None else Some True) None (s\<lparr>rem_sem := rem_sem s + 1\<rparr>)"
  by (subst call.simps) (simp add: call_Returned sem_post_def)

lemma call_Add_unlock:
  "call t s (Add_unlock w) =
     Returns (if w then None else Some True) None (s\<lparr>mutex := None, rem_sem := rem_sem s + 1\<rparr>)"
  by (subst call.simps) (simp add: call_Add_post pthread_mutex_unlock_def)

lemma call_Add_body:
  "call t s (Add_body w item) =
     (case FIFOBuff_add (fifo s) item of
        Inl e \<Rightarrow> Faults e
      | Inr (r, f) \<Rightarrow>
          Returns (if w then None else Some True) None
            (s\<lparr>fifo := f, mutex := None, rem_sem := rem_sem s + 1\<rparr>))"
  by (subst call.simps) (simp add: call_Add_unlock split: sum.splits)

lemma call_Add_lock:
  "call t s (Add_lock w item) =
     (case mutex s of
        Some owner \<Rightarrow> Blocks
      | None \<Rightarrow>
         (case FIFOBuff_add (fifo s) item of
            Inl e \<Rightarrow> Faults e
          | Inr (r, f) \<Rightarrow>
              Returns (if w then None else Some True) None
                (s\<lparr>fifo := f, mutex := None, rem_sem := rem_sem s + 1\<rparr>)))"
  by (subst call.simps)
     (simp add: call_Add_body pthread_mutex_lock_def split: option.splits sum.splits)

lemma FIFOBuff_TS_add_eq:
  "FIFOBuff_TS_add t s item =
     (if 0 < add_sem s then
        (case mutex s of
           Some owner \<Rightarrow> Blocks
         | None \<Rightarrow>
            (case FIFOBuff_add (fifo s) item of
               Inl e \<Rightarrow> Faults e
             | Inr (r, f) \<Rightarrow>
                 Returns (Some True) None
                   (s\<lparr>fifo := f, mutex := None, add_sem := add_sem s - 1,
                      rem_sem := rem_sem s + 1\<rparr>)))
      else Returns (Some False) None s)"
  unfolding FIFOBuff_TS_add_def
  by (subst call.simps)
     (simp add: call_Add_lock call_Returned sem_trywait_def split: option.splits sum.splits)

lemma FIFOBuff_TS_add_wait_eq:
  "FIFOBuff_TS_add_wait t s item =
     (if 0 < add_sem s then
        (case mutex s of
           Some owner \<Rightarrow> Blocks
         | None \<Rightarrow>
            (case FIFOBuff_add (fifo s) item of
               Inl e \<Rightarrow> Faults e
             | Inr (r, f) \<Rightarrow>
                 Returns None None
                   (s\<lparr>fifo := f, mutex := None, add_sem := add_sem s - 1,
                      rem_sem := rem_sem s + 1\<rparr>)))
      else Blocks)"
  unfolding FIFOBuff_TS_add_wait_def
  by (subst call.simps)
     (simp add: call_Add_lock sem_wait_def split: option.splits sum.splits)

lemma call_Rem_post:
  "call t s (Rem_post w pitem) =
     Returns (if w then None else Some True) pitem (s\<lparr>add_sem := add_sem s + 1\<rparr>)"
  by (subst call.simps) (simp add: call_Returned sem_post_def)

lemma call_Rem_unlock:
  "call t s (Rem_unlock w pitem) =
     Returns (if w then None else Some True) pitem (s\<lparr>mutex := None, add_sem := add_sem s + 1\<rparr>)"
  by (subst call.simps) (simp add: call_Rem_post pthread_mutex_unlock_def)

lemma call_Rem_body:
  "call t s (Rem_body w pitem) =
     (case FIFOBuff_remove (fifo s) pitem of
        Inl e \<Rightarrow> Faults e
      | Inr (r, out, f) \<Rightarrow>
          Returns (if w then None else Some True) out
            (s\<lparr>fifo := f, mutex := None, add_sem := add_sem s + 1\<rparr>))"
  by (subst call.simps) (simp add: call_Rem_unlock split: sum.splits)

lemma call_Rem_lock:
  "call t s (Rem_lock w pitem) =
     (case mutex s of
        Some owner \<Rightarrow> Blocks
      | None \<Rightarrow>
         (case FIFOBuff_remove (fifo s) pitem of
            Inl e \<Rightarrow> Faults e
          | Inr (r, out, f) \<Rightarrow>
              Returns (if w then None else Some True) out
                (s\<lparr>fifo := f, mutex := None, add_sem := add_sem s + 1\<rparr>)))"
  by (subst call.simps)
     (simp add: call_Rem_body pthread_mutex_lock_def split: option.splits sum.splits)

lemma FIFOBuff_TS_remove_eq:
  "FIFOBuff_TS_remove t s pitem =
     (if 0 < rem_sem s then
        (case mutex s of
           Some owner \<Rightarrow> Blocks
         | None \<Rightarrow>
            (case FIFOBuff_remove (fifo s) pitem of
               Inl e \<Rightarrow> Faults e
             | Inr (r, out, f) \<Rightarrow>
                 Returns (Some True) out
                   (s\<lparr>fifo := f, mutex := None, add_sem := add_sem s + 1,
                      rem_sem := rem_sem s - 1\<rparr>)))
      else Returns (Some False) pitem s)"
  unfolding FIFOBuff_TS_remove_def
  by (subst call.simps)
     (simp add: call_Rem_lock call_Returned sem_trywait_def split: option.splits sum.splits)

lemma FIFOBuff_TS_remove_wait_eq:
  "FIFOBuff_TS_remove_wait t s pitem =
     (if 0 < rem_sem s then
        (case mutex s of
           Some owner \<Rightarrow> Blocks
         | None \<Rightarrow>
            (case FIFOBuff_remove (fifo s) pitem of
               Inl e \<Rightarrow> Faults e
             | Inr (r, out, f) \<Rightarrow>
                 Returns None out
                   (s\<lparr>fifo := f, mutex := None, add_sem := add_sem s + 1,
                      rem_sem := rem_sem s - 1\<rparr>)))
      else Blocks)"
  unfolding FIFOBuff_TS_remove_wait_def
  by (subst call.simps)
     (simp add: call_Rem_lock sem_wait_def split: option.splits sum.splits)

lemma reachable_enter:
  assumes "reachable os max_cap n \<sigma>" "t < length (threads \<sigma>)" "threads \<sigma> ! t = None" "entry p"
    and "\<sigma>' = \<sigma>\<lparr>threads := (threads \<sigma>)[t := Some p]\<rparr>"
  shows "reachable os max_cap n \<sigma>'"
  using assms reachable.step sys_step.enter by blast

lemma reachable_statement:
  assumes "reachable os max_cap n \<sigma>" "t < length (threads \<sigma>)" "threads \<sigma> ! t = Some p"
    and "thread_step t (shared \<sigma>) p = Next s' p'"
    and "\<sigma>' = \<sigma>\<lparr>shared := s', threads := (threads \<sigma>)[t := Some p']\<rparr>"
  shows "reachable os max_cap n \<sigma>'"
  using assms reachable.step sys_step.statement by blast

lemma reachable_leave:
  assumes "reachable os max_cap n \<sigma>" "t < length (threads \<sigma>)" "threads \<sigma> ! t = Some p"
    and "thread_step t (shared \<sigma>) p = Finished r pitem"
    and "\<sigma>' = \<sigma>\<lparr>threads := (threads \<sigma>)[t := None]\<rparr>"
  shows "reachable os max_cap n \<sigma>'"
  using assms reachable.step sys_step.leave by blast

lemma call_reachable_from:
  assumes "call t s p = Returns r out s'"
    and "reachable os max_cap n \<sigma>" "shared \<sigma> = s" "t < length (threads \<sigma>)"
        "threads \<sigma> ! t = Some p"
  shows "reachable os max_cap n (\<sigma>\<lparr>shared := s', threads := (threads \<sigma>)[t := None]\<rparr>)"
  using assms
proof (induction t s p arbitrary: \<sigma> rule: call.induct)
  case (1 t s p)
  show ?case
  proof (cases "thread_step t s p")
    case (Next s1 p1)
    define \<sigma>1 where "\<sigma>1 = \<sigma>\<lparr>shared := s1, threads := (threads \<sigma>)[t := Some p1]\<rparr>"
    have c: "call t s1 p1 = Returns r out s'"
      using "1.prems"(1) Next by (subst (asm) call.simps) simp
    have r1: "reachable os max_cap n \<sigma>1"
      using reachable_statement[OF "1.prems"(2,4,5)] Next "1.prems"(3) by (simp add: \<sigma>1_def)
    have "reachable os max_cap n (\<sigma>1\<lparr>shared := s', threads := (threads \<sigma>1)[t := None]\<rparr>)"
      using "1.IH"[OF Next c r1] "1.prems"(4) by (simp add: \<sigma>1_def)
    then show ?thesis by (simp add: \<sigma>1_def)
  next
    case Suspended
    then show ?thesis using "1.prems"(1) by (subst (asm) call.simps) simp
  next
    case (Faulted e)
    then show ?thesis using "1.prems"(1) by (subst (asm) call.simps) simp
  next
    case (Finished r' pitem)
    then have "s' = s" using "1.prems"(1) by (subst (asm) call.simps) simp
    moreover have "reachable os max_cap n (\<sigma>\<lparr>threads := (threads \<sigma>)[t := None]\<rparr>)"
      using reachable_leave[OF "1.prems"(2,4,5)] Finished "1.prems"(3) by simp
    ultimately show ?thesis using "1.prems"(3) by (cases \<sigma>) simp
  qed
qed

lemma call_reachable:
  assumes "reachable os max_cap n \<sigma>" "t < length (threads \<sigma>)" "threads \<sigma> ! t = None" "entry p"
    and "call t (shared \<sigma>) p = Returns r out s'"
  shows "reachable os max_cap n (\<sigma>\<lparr>shared := s'\<rparr>)"
proof -
  define \<sigma>0 where "\<sigma>0 = \<sigma>\<lparr>threads := (threads \<sigma>)[t := Some p]\<rparr>"
  have r0: "reachable os max_cap n \<sigma>0"
    using reachable_enter[OF assms(1-4)] by (simp add: \<sigma>0_def)
  have c: "call t (shared \<sigma>0) p = Returns r out s'"
    using assms(5) by (simp add: \<sigma>0_def)
  have l: "t < length (threads \<sigma>0)" "threads \<sigma>0 ! t = Some p"
    using assms(2) by (simp_all add: \<sigma>0_def)
  have "reachable os max_cap n (\<sigma>0\<lparr>shared := s', threads := (threads \<sigma>0)[t := None]\<rparr>)"
    by (rule call_reachable_from[OF c r0 refl l])
  moreover have "(threads \<sigma>)[t := None] = threads \<sigma>"
    using list_update_id[of "threads \<sigma>" t] assms(3) by simp
  ultimately show ?thesis by (simp add: \<sigma>0_def)
qed

lemma after_add_7:
  "FIFOBuff_add (FIFOBuff_ctor 2) (7::nat) =
     Inr (True, \<lparr>buffer = [Live 7, Uninit], head = 0, tail = 1, fifo_size = 1,
                 fifo_cap = 2, free_mem = True, lifecycle = [Ctor 0]\<rparr>)"
  by code_simp

lemma after_remove_7:
  "FIFOBuff_remove \<lparr>buffer = [Live (7::nat), Uninit], head = 0, tail = Suc 0,
                 fifo_size = Suc 0, fifo_cap = 2, free_mem = True, lifecycle = [Ctor 0]\<rparr>
     (Some Uninit) =
     Inr (True, Some (Live 7),
          \<lparr>buffer = [Live 7, Uninit], head = 1, tail = 1, fifo_size = 0,
                 fifo_cap = 2, free_mem = True, lifecycle = [Ctor 0, Dtor 1]\<rparr>)"
  by code_simp

lemma nth_le_sum_list_map:
  "t < length xs \<Longrightarrow> f (xs ! t) \<le> sum_list (map f xs)" for f :: "'b \<Rightarrow> nat"
proof (induction xs arbitrary: t)
  case Nil
  then show ?case by simp
next
  case (Cons x xs)
  show ?case
  proof (cases t)
    case 0
    then show ?thesis by simp
  next
    case (Suc k)
    then have "k < length xs" using Cons.prems by simp
    from Cons.IH[OF this] Suc show ?thesis by simp
  qed
qed

lemma thread_step_protocol:
  assumes "thread_step t s p = Next s' p'"
    and "well_formed (fifo s)"
    and "awaiting_slot (Some p) = 1 \<longrightarrow> fifo_size (fifo s) < fifo_cap (fifo s)"
    and "awaiting_item (Some p) = 1 \<longrightarrow> 0 < fifo_size (fifo s)"
  shows "well_formed (fifo s') \<and> fifo_cap (fifo s') = fifo_cap (fifo s) \<and>
         add_sem s' + awaiting_slot (Some p') + fifo_size (fifo s')
           = add_sem s + awaiting_slot (Some p) + fifo_size (fifo s) \<and>
         rem_sem s' + awaiting_item (Some p') + fifo_size (fifo s)
           = rem_sem s + awaiting_item (Some p) + fifo_size (fifo s')"
proof (cases p)
  case (Add_body w item)
  then have lt: "fifo_size (fifo s) < fifo_cap (fifo s)" using assms(3) by simp
  show ?thesis
    using assms(1) Add_body wf_after_add[OF assms(2) lt, of item]
    by (auto simp add: add_ok[OF assms(2) lt])
next
  case (Rem_body w pitem)
  then have pos: "0 < fifo_size (fifo s)" using assms(4) by simp
  show ?thesis
    using assms(1) Rem_body wf_after_remove[OF assms(2) pos] pos
    by (auto simp add: remove_ok[OF assms(2) pos])
next
  case (Peek_body item)
  then show ?thesis
    using assms(1,2)
    by (auto simp: FIFOBuff_size_def dest: peek_keeps_buffer split: if_splits sum.splits)
next
  case (Add_claim w item)
  then show ?thesis using assms(1,2)
    by (cases w) (auto simp: sem_trywait_def sem_wait_def split: if_splits)
next
  case (Rem_claim w pitem)
  then show ?thesis using assms(1,2)
    by (cases w) (auto simp: sem_trywait_def sem_wait_def split: if_splits)
qed (use assms(1,2) in \<open>auto simp: pthread_mutex_lock_def sem_post_def split: option.splits\<close>)


lemma entry_awaits_nothing: "entry p \<Longrightarrow> awaiting_slot (Some p) = 0 \<and> awaiting_item (Some p) = 0"
  by (cases p) auto

lemma sys_step_protocol:
  assumes "sys_step \<sigma> \<sigma>'" and inv: "protocol_inv \<sigma>"
  shows "protocol_inv \<sigma>'"
  using assms(1)
proof cases
  case (enter t p)
  have z: "awaiting_slot (Some p) = 0" "awaiting_item (Some p) = 0"
    using enter(4) entry_awaits_nothing by blast+
  have "sum_list (map awaiting_slot ((threads \<sigma>)[t := Some p])) = sum_list (map awaiting_slot (threads \<sigma>))"
    using sum_list_map_update[OF enter(2), of awaiting_slot "Some p"] enter(3) z by simp
  moreover have "sum_list (map awaiting_item ((threads \<sigma>)[t := Some p])) = sum_list (map awaiting_item (threads \<sigma>))"
    using sum_list_map_update[OF enter(2), of awaiting_item "Some p"] enter(3) z by simp
  ultimately show ?thesis using inv enter(1) by (simp add: protocol_inv_def)
next
  case (statement t p s' p')
  define s where "s = shared \<sigma>"
  have w: "well_formed (fifo s)"
    and free: "add_sem s + sum_list (map awaiting_slot (threads \<sigma>)) + fifo_size (fifo s) \<le> fifo_cap (fifo s)"
    and filled: "rem_sem s + sum_list (map awaiting_item (threads \<sigma>)) = fifo_size (fifo s)"
    using inv by (simp_all add: protocol_inv_def s_def)
  have ls: "awaiting_slot (Some p) \<le> sum_list (map awaiting_slot (threads \<sigma>))"
    and li: "awaiting_item (Some p) \<le> sum_list (map awaiting_item (threads \<sigma>))"
    using nth_le_sum_list_map[OF statement(2), of awaiting_slot]
      nth_le_sum_list_map[OF statement(2), of awaiting_item] statement(3) by simp_all
  have h1: "awaiting_slot (Some p) = 1 \<longrightarrow> fifo_size (fifo s) < fifo_cap (fifo s)"
    using ls free by arith
  have h2: "awaiting_item (Some p) = 1 \<longrightarrow> 0 < fifo_size (fifo s)"
    using li filled by arith
  have st: "thread_step t s p = Next s' p'" using statement(4) by (simp add: s_def)
  note d = thread_step_protocol[OF st w h1 h2]
  have us: "sum_list (map awaiting_slot ((threads \<sigma>)[t := Some p'])) + awaiting_slot (Some p)
            = sum_list (map awaiting_slot (threads \<sigma>)) + awaiting_slot (Some p')"
    using sum_list_map_update[OF statement(2), of awaiting_slot "Some p'"] statement(3) by simp
  have ui: "sum_list (map awaiting_item ((threads \<sigma>)[t := Some p'])) + awaiting_item (Some p)
            = sum_list (map awaiting_item (threads \<sigma>)) + awaiting_item (Some p')"
    using sum_list_map_update[OF statement(2), of awaiting_item "Some p'"] statement(3) by simp
  have f': "add_sem s' + sum_list (map awaiting_slot ((threads \<sigma>)[t := Some p'])) + fifo_size (fifo s')
            \<le> fifo_cap (fifo s')"
    using d us free ls by arith
  have i': "rem_sem s' + sum_list (map awaiting_item ((threads \<sigma>)[t := Some p'])) = fifo_size (fifo s')"
    using d ui filled li by arith
  show ?thesis using d f' i' statement(1) by (simp add: protocol_inv_def)
next
  case (leave t p r pitem)
  have "p = Returned r pitem" using leave(4) by (rule thread_step_finished)
  then have z: "awaiting_slot (threads \<sigma> ! t) = 0" "awaiting_item (threads \<sigma> ! t) = 0"
    using leave(3) by simp_all
  have "sum_list (map awaiting_slot ((threads \<sigma>)[t := None])) = sum_list (map awaiting_slot (threads \<sigma>))"
    using sum_list_map_update[OF leave(2), of awaiting_slot None] z by simp
  moreover have "sum_list (map awaiting_item ((threads \<sigma>)[t := None])) = sum_list (map awaiting_item (threads \<sigma>))"
    using sum_list_map_update[OF leave(2), of awaiting_item None] z by simp
  ultimately show ?thesis using inv leave(1) by (simp add: protocol_inv_def)
qed

lemma reachable_protocol:
  assumes "reachable os max_cap n \<sigma>" "fresh_names os"
  shows "protocol_inv \<sigma>"
  using assms(1)
proof induction
  case (initial s)
  have f: "fifo s = FIFOBuff_ctor max_cap" using ctor_Some[OF initial] by simp
  have w: "well_formed (fifo s)" unfolding f by (rule wf_ctor)
  have z: "fifo_size (fifo s) = 0" "fifo_cap (fifo s) = max_cap"
    unfolding f by (simp_all add: FIFOBuff_ctor_def)
  show ?case
    using ctor_fresh[OF assms(2) initial] w z
    by (simp add: protocol_inv_def sum_list_replicate)
next
  case (step \<sigma> \<sigma>')
  show ?case by (rule sys_step_protocol[OF step(2) step(3)])
qed


lemma reachable_remove_succeeds:
  assumes "reachable os max_cap n \<sigma>" "fresh_names os" "u < length (threads \<sigma>)"
          "threads \<sigma> ! u = Some (Rem_body w pitem)"
  shows "\<exists>out f. FIFOBuff_remove (fifo (shared \<sigma>)) pitem = Inr (True, out, f)"
proof -
  have inv: "protocol_inv \<sigma>" by (rule reachable_protocol[OF assms(1,2)])
  have "awaiting_item (threads \<sigma> ! u) \<le> sum_list (map awaiting_item (threads \<sigma>))"
    by (rule nth_le_sum_list_map[OF assms(3)])
  then have pos: "0 < fifo_size (fifo (shared \<sigma>))"
    using inv assms(4) by (simp add: protocol_inv_def)
  have w: "well_formed (fifo (shared \<sigma>))" using inv by (simp add: protocol_inv_def)
  show ?thesis by (intro exI) (rule remove_ok[OF w pos])
qed

section \<open>The claims\<close>

subsection \<open>Removal\<close>

text \<open>
  Claim C1. On a buffer with \<open>count > 0\<close>, \<open>remove(pitem)\<close> with a non-null \<open>pitem\<close>
  copies the element at \<open>head\<close> into \<open>*pitem\<close>, finalizes the element at \<open>head\<close>,
  advances \<open>head\<close>, decrements the count and returns success.

  The code copies from \<open>head\<close> but calls the destructor on the slot at \<open>tail\<close>. On a
  buffer of capacity 3 holding one element, \<open>remove\<close> delivers that element and returns
  true, yet the element in slot 0 stays live and the destructor call (\<open>Dtor 1\<close>) goes to
  slot 1, which was never constructed.
\<close>

theorem remove_finalizes_slot_at_tail:
  "run (FIFOBuff_ctor 3) [Add (7::nat), Remove (Some Uninit)] =
     Inr ([(True, None), (True, Some (Live 7))],
          \<lparr>buffer = [Live 7, Uninit, Uninit], head = 1, tail = 1, fifo_size = 0,
           fifo_cap = 3, free_mem = True, lifecycle = [Ctor 0, Dtor 1]\<rparr>)"
  by code_simp

subsection \<open>Peek\<close>

text \<open>
  Claim C2. On a buffer with \<open>count > 0\<close>, \<open>peek(pitem)\<close> copies the element at \<open>head\<close>,
  the one a following \<open>remove\<close> would yield, without modifying the buffer, and returns
  success.

  The code reads the slot at \<open>tail\<close>. After \<open>add(1)\<close>, \<open>add(2)\<close>, \<open>remove\<close> on a buffer
  of capacity 2, \<open>peek\<close> returns true and delivers the bytes of the element 1 that was
  already removed, while the following \<open>remove\<close> delivers 2. The buffer itself is left
  as it was.
\<close>

theorem peek_reads_slot_at_tail:
  "run (FIFOBuff_ctor 2)
       [Add (1::nat), Add 2, Remove (Some Uninit), Peek (Some Uninit), Remove (Some Uninit)] =
     Inr ([(True, None), (True, None), (True, Some (Live 1)), (True, Some (Dead 1)),
           (True, Some (Live 2))],
          \<lparr>buffer = [Dead 1, Live 2], head = 0, tail = 0, fifo_size = 0,
           fifo_cap = 2, free_mem = True, lifecycle = [Ctor 0, Ctor 1, Dtor 0, Dtor 0]\<rparr>)"
  by code_simp

subsection \<open>Element lifecycle\<close>

text \<open>
  Claim C3. After any sequence of operations on a fresh buffer, exactly the \<open>count\<close> slots
  beginning at \<open>head\<close> hold live elements; after adding \<open>N\<close> elements, removing
  \<open>M < N\<close> and destroying the buffer, no element is leaked and none is finalized twice.

  The scenario of the test \<open>cleanup\<close> with capacity 3: three elements added, two removed,
  buffer destroyed. Before the destructor runs, slot 1 is live although it is outside the
  occupied range; afterwards slot 1 is still live (leaked) and slot 0 has been finalized
  twice. The number of constructor calls still equals the number of destructor calls,
  which is all that \<open>Dummy::count\<close> observes.
\<close>

theorem cleanup_leaks_and_finalizes_twice:
  "run (FIFOBuff_ctor 3) [Add (1::nat), Add 2, Add 3, Remove None, Remove None] =
     Inr ([(True, None), (True, None), (True, None), (True, None), (True, None)],
          \<lparr>buffer = [Dead 1, Live 2, Live 3], head = 2, tail = 0, fifo_size = 1,
           fifo_cap = 3, free_mem = True,
           lifecycle = [Ctor 0, Ctor 1, Ctor 2, Dtor 0, Dtor 0]\<rparr>) \<and>
   \<not> live_exactly_occupied
        \<lparr>buffer = [Dead (1::nat), Live 2, Live 3], head = 2, tail = 0, fifo_size = 1,
         fifo_cap = 3, free_mem = True,
         lifecycle = [Ctor 0, Ctor 1, Ctor 2, Dtor 0, Dtor 0]\<rparr> \<and>
   FIFOBuff_dtor
        \<lparr>buffer = [Dead (1::nat), Live 2, Live 3], head = 2, tail = 0, fifo_size = 1,
         fifo_cap = 3, free_mem = True,
         lifecycle = [Ctor 0, Ctor 1, Ctor 2, Dtor 0, Dtor 0]\<rparr> =
     Inr \<lparr>buffer = [Dead 1, Live 2, Dead 3], head = 0, tail = 0, fifo_size = 0,
          fifo_cap = 3, free_mem = True,
          lifecycle = [Ctor 0, Ctor 1, Ctor 2, Dtor 0, Dtor 0, Dtor 2]\<rparr> \<and>
   ctor_calls [Ctor 0, Ctor 1, Ctor 2, Dtor 0, Dtor 0, Dtor 2] 0 = 1 \<and>
   dtor_calls [Ctor 0, Ctor 1, Ctor 2, Dtor 0, Dtor 0, Dtor 2] 0 = 2 \<and>
   ctor_calls [Ctor 0, Ctor 1, Ctor 2, Dtor 0, Dtor 0, Dtor 2] 1 = 1 \<and>
   dtor_calls [Ctor 0, Ctor 1, Ctor 2, Dtor 0, Dtor 0, Dtor 2] 1 = 0 \<and>
   instance_count [Ctor 0, Ctor 1, Ctor 2, Dtor 0, Dtor 0, Dtor 2] = 0"
proof -
  have "\<not> live_exactly_occupied
        \<lparr>buffer = [Dead (1::nat), Live 2, Live 3], head = 2, tail = 0, fifo_size = 1,
         fifo_cap = 3, free_mem = True,
         lifecycle = [Ctor 0, Ctor 1, Ctor 2, Dtor 0, Dtor 0]\<rparr>"
    by code_simp
  moreover have "dtor_calls [Ctor 0, Ctor 1, Ctor 2, Dtor 0, Dtor 0, Dtor 2] 0 = 2"
    "dtor_calls [Ctor 0, Ctor 1, Ctor 2, Dtor 0, Dtor 0, Dtor 2] 1 = 0"
    "ctor_calls [Ctor 0, Ctor 1, Ctor 2, Dtor 0, Dtor 0, Dtor 2] 0 = 1"
    "ctor_calls [Ctor 0, Ctor 1, Ctor 2, Dtor 0, Dtor 0, Dtor 2] 1 = 1"
    "instance_count [Ctor 0, Ctor 1, Ctor 2, Dtor 0, Dtor 0, Dtor 2] = 0"
    by (simp_all add: dtor_calls_def ctor_calls_def instance_count_def)
  ultimately show ?thesis
    using cleanup_run cleanup_dtor by simp
qed

subsection \<open>FIFO order\<close>

text \<open>
  Claim C4. In a sequence of \<open>add\<close> and \<open>remove\<close> calls on a fresh buffer that never adds
  to a full buffer and never removes from an empty one, every call succeeds and the calls
  of \<open>remove\<close> deliver the values passed to \<open>add\<close>, in the same order: the \<open>k\<close>-th
  \<open>remove\<close> delivers the \<open>k\<close>-th value added (or nothing, when its \<open>pitem\<close> is null).
  The indices wrap around the capacity as often as the sequence makes them.
\<close>

theorem fifo_order:
  assumes "within_capacity cap 0 cs"
  shows "\<exists>outs fb'. run (FIFOBuff_ctor cap) cs = Inr (outs, fb') \<and> list_all fst outs \<and>
           delivered cs outs = map2 owed (removes cs) (adds cs)"
proof -
  have c: "contents (FIFOBuff_ctor cap :: 'a FIFOBuff) = map Live []"
    by (simp add: contents_def occupied_def FIFOBuff_ctor_def)
  have w: "within_capacity (fifo_cap (FIFOBuff_ctor cap :: 'a FIFOBuff)) (length ([] :: 'a list)) cs"
    using assms by (simp add: FIFOBuff_ctor_def)
  show ?thesis
    using run_fifo[OF wf_ctor c w] by auto
qed



theorem fifo_order_witness:
  "within_capacity 2 0 [Add (1::nat), Add 2, Remove (Some Uninit), Add 3, Remove None,
                        Remove (Some (Live 0))] \<and>
   (\<exists>outs fb'. run (FIFOBuff_ctor 2)
       [Add (1::nat), Add 2, Remove (Some Uninit), Add 3, Remove None, Remove (Some (Live 0))]
       = Inr (outs, fb') \<and> list_all fst outs \<and>
       delivered [Add (1::nat), Add 2, Remove (Some Uninit), Add 3, Remove None,
                  Remove (Some (Live 0))] outs
       = [Some (Live 1), None, Some (Live 3)])"
  using fifo_order[of 2 "[Add (1::nat), Add 2, Remove (Some Uninit), Add 3, Remove None,
                        Remove (Some (Live 0))]"]
  by simp

subsection \<open>Full and empty\<close>

text \<open>
  Claim C5. \<open>add\<close> on a full buffer returns false and leaves the buffer unchanged;
  \<open>remove\<close> and \<open>peek\<close> on an empty buffer return false and leave the buffer and
  \<open>*pitem\<close> unchanged. The result is a plain return (\<open>Inr\<close>), not a fault.
\<close>

theorem failure_no_effect:
  "(fifo_size fb = fifo_cap fb \<longrightarrow> FIFOBuff_add fb item = Inr (False, fb)) \<and>
   (fifo_size fb = 0 \<longrightarrow>
      FIFOBuff_remove fb pitem = Inr (False, pitem, fb) \<and>
      FIFOBuff_peek fb pitem = Inr (False, pitem, fb))"
  by (simp add: add_full remove_empty peek_empty)

theorem failure_no_effect_witness:
  "fifo_size \<lparr>buffer = [Live (5::nat), Live 6], head = 1, tail = 1, fifo_size = 2,
              fifo_cap = 2, free_mem = True, lifecycle = [Ctor 0, Ctor 1]\<rparr> = 2 \<and>
   FIFOBuff_add \<lparr>buffer = [Live (5::nat), Live 6], head = 1, tail = 1, fifo_size = 2,
              fifo_cap = 2, free_mem = True, lifecycle = [Ctor 0, Ctor 1]\<rparr> 9 =
     Inr (False, \<lparr>buffer = [Live 5, Live 6], head = 1, tail = 1, fifo_size = 2,
              fifo_cap = 2, free_mem = True, lifecycle = [Ctor 0, Ctor 1]\<rparr>) \<and>
   fifo_size (FIFOBuff_ctor 2 :: nat FIFOBuff) = 0 \<and>
   FIFOBuff_remove (FIFOBuff_ctor 2 :: nat FIFOBuff) (Some Uninit)
     = Inr (False, Some Uninit, FIFOBuff_ctor 2) \<and>
   FIFOBuff_peek (FIFOBuff_ctor 2 :: nat FIFOBuff) (Some Uninit)
     = Inr (False, Some Uninit, FIFOBuff_ctor 2)"
  using failure_no_effect[of "\<lparr>buffer = [Live (5::nat), Live 6], head = 1, tail = 1,
              fifo_size = 2, fifo_cap = 2, free_mem = True, lifecycle = [Ctor 0, Ctor 1]\<rparr>" 9]
        failure_no_effect[of "FIFOBuff_ctor 2 :: nat FIFOBuff" _ "Some Uninit"]
  by (simp add: FIFOBuff_ctor_def)

subsection \<open>Bounds\<close>

text \<open>
  Claim C6. For a buffer constructed with capacity \<open>cap > 0\<close> (on its own storage, or on
  caller storage of at least \<open>cap\<close> slots), after every sequence of calls the count is at
  most \<open>cap\<close>, \<open>head\<close> and \<open>tail\<close> are below \<open>cap\<close>, and the capacity is still \<open>cap\<close>.
  The only way such a run can end in a fault is a \<open>peek\<close> through a null pointer.
\<close>

theorem bounds_preserved:
  assumes "0 < cap"
    and "fb0 = FIFOBuff_ctor cap \<or> (fb0 = FIFOBuff_ctor_buf buf cap \<and> cap \<le> length buf)"
  shows "case run fb0 cs of
           Inr (outs, fb') \<Rightarrow> in_bounds fb' \<and> fifo_cap fb' = cap
         | Inl e \<Rightarrow> e = NullDeref \<and> \<not> list_all (\<lambda>c. \<not> null_peek c) cs"
proof -
  have w: "well_formed fb0" using assms(2) wf_ctor wf_ctor_buf by auto
  have c: "fifo_cap fb0 = cap"
    using assms(2) by (auto simp: FIFOBuff_ctor_def FIFOBuff_ctor_buf_def)
  show ?thesis
    using run_wf[OF w, of cs] c assms(1)
    by (auto split: sum.splits simp: wf_in_bounds)
qed

theorem bounds_preserved_witness:
  "(0::nat) < 2 \<and>
   (case run (FIFOBuff_ctor 2)
           [Add (1::nat), Add 2, Add 3, Peek (Some Uninit), Remove None, Add 4, Remove None] of
      Inr (outs, fb') \<Rightarrow> in_bounds fb' \<and> fifo_cap fb' = 2
    | Inl e \<Rightarrow> e = NullDeref \<and>
        \<not> list_all (\<lambda>c. \<not> null_peek c)
            [Add (1::nat), Add 2, Add 3, Peek (Some Uninit), Remove None, Add 4, Remove None])"
  using bounds_preserved[of 2 "FIFOBuff_ctor 2" "[]"
          "[Add (1::nat), Add 2, Add 3, Peek (Some Uninit), Remove None, Add 4, Remove None]"]
  by simp

subsection \<open>Capacity zero\<close>

text \<open>
  Claim C9. On a buffer constructed with capacity 0 every call returns false, without a
  fault: no call reaches \<open>% fifo_cap\<close> (which would be \<open>ModByZero\<close>) or the storage (which
  would be \<open>OutOfBounds\<close>), and the buffer stays as constructed.
\<close>

theorem zero_capacity_never_indexes:
  "run (FIFOBuff_ctor 0) cs = Inr (map (\<lambda>c. (False, pitem_of c)) cs, FIFOBuff_ctor 0) \<and>
   run (FIFOBuff_ctor_buf buf 0) cs
     = Inr (map (\<lambda>c. (False, pitem_of c)) cs, FIFOBuff_ctor_buf buf 0)"
proof -
  have "run fb cs = Inr (map (\<lambda>c. (False, pitem_of c)) cs, fb)"
    if "fifo_size fb = 0" "fifo_cap fb = 0" for fb :: "'a FIFOBuff"
  proof (induction cs)
    case Nil
    show ?case by simp
  next
    case (Cons c cs)
    have "exec fb c = Inr (False, pitem_of c, fb)"
      using that by (cases c) (simp_all add: add_full remove_empty peek_empty)
    then show ?case using Cons.IH by simp
  qed
  then show ?thesis by (simp add: FIFOBuff_ctor_def FIFOBuff_ctor_buf_def)
qed

theorem zero_capacity_never_indexes_witness:
  "run (FIFOBuff_ctor 0) [Add (1::nat), Remove (Some Uninit), Peek None, Remove None] =
     Inr ([(False, None), (False, Some Uninit), (False, None), (False, None)], FIFOBuff_ctor 0)"
  using zero_capacity_never_indexes[of "[Add (1::nat), Remove (Some Uninit), Peek None, Remove None]"]
  by simp

subsection \<open>Add, then remove\<close>

text \<open>
  Claim C10. On an empty, well-formed buffer of capacity \<open>> 0\<close>, \<open>add(x)\<close> returns true, and
  \<open>remove(pitem)\<close> right after it, with a non-null \<open>pitem\<close>, returns true, stores \<open>x\<close> in
  \<open>*pitem\<close> and leaves the count at 0.
\<close>

theorem add_then_remove:
  assumes "well_formed fb" "fifo_size fb = 0" "0 < fifo_cap fb"
  shows "\<exists>fb1 fb2. FIFOBuff_add fb item = Inr (True, fb1) \<and>
           FIFOBuff_remove fb1 (Some old) = Inr (True, Some (Live item), fb2) \<and>
           fifo_size fb2 = 0"
proof -
  define fb1 where "fb1 = fb\<lparr>buffer := (buffer fb)[tail fb := Live item],
                   tail := (tail fb + 1) mod fifo_cap fb,
                   fifo_size := fifo_size fb + 1,
                   lifecycle := lifecycle fb @ [Ctor (tail fb)]\<rparr>"
  have lt: "fifo_size fb < fifo_cap fb" using assms by simp
  have a: "FIFOBuff_add fb item = Inr (True, fb1)"
    unfolding fb1_def by (rule add_ok[OF assms(1) lt])
  have w1: "well_formed fb1" unfolding fb1_def by (rule wf_after_add[OF assms(1) lt])
  have pos: "0 < fifo_size fb1" by (simp add: fb1_def)
  have "tail fb = head fb" using assms by (simp add: well_formed_def)
  then have h: "buffer fb1 ! head fb1 = Live item"
    using wf_tail_in[OF assms(1,3)] by (simp add: fb1_def)
  show ?thesis
    using a remove_ok[OF w1 pos, of "Some old"] h assms(2) by (simp add: fb1_def)
qed

theorem add_then_remove_witness:
  "well_formed \<lparr>buffer = [Dead (1::nat), Uninit], head = 1, tail = 1, fifo_size = 0,
       fifo_cap = 2, free_mem = True, lifecycle = [Ctor 0, Dtor 0]\<rparr> \<and>
   (\<exists>fb1 fb2.
      FIFOBuff_add \<lparr>buffer = [Dead (1::nat), Uninit], head = 1, tail = 1, fifo_size = 0,
         fifo_cap = 2, free_mem = True, lifecycle = [Ctor 0, Dtor 0]\<rparr> 5 = Inr (True, fb1) \<and>
      FIFOBuff_remove fb1 (Some Uninit) = Inr (True, Some (Live 5), fb2) \<and>
      fifo_size fb2 = 0)"
  using add_then_remove[of "\<lparr>buffer = [Dead (1::nat), Uninit], head = 1, tail = 1,
         fifo_size = 0, fifo_cap = 2, free_mem = True, lifecycle = [Ctor 0, Dtor 0]\<rparr>" 5 Uninit]
  by (simp add: well_formed_def)

subsection \<open>Permits of the synchronized queue\<close>

text \<open>
  Claim C7. The synchronized queue keeps two counters, \<open>add_sem\<close> for the free slots,
  initialized to the capacity, and \<open>rem_sem\<close> for the filled ones, initialized to 0;
  every successful add moves one unit from \<open>add_sem\<close> to \<open>rem_sem\<close>, every successful
  remove one unit back, and in every quiescent reachable state \<open>add_sem + rem_sem\<close> is
  the capacity.

  As stated, for every queue, this fails at construction. \<open>init()\<close> hands the capacity
  to \<open>sem_open\<close>, which reads an \<open>unsigned int\<close>, refuses values above \<open>SEM_VALUE_MAX\<close>
  and opens an existing semaphore of the same name as it is. With capacity \<open>2^32 + 2\<close>
  the queue starts with \<open>add_sem = 2\<close>, a quiescent reachable state in which
  \<open>add_sem + rem_sem\<close> is not the capacity; with capacity \<open>2^31\<close> there is no semaphore
  at all; and where a semaphore of value 7 exists under the name, a queue of capacity 2
  starts with \<open>add_sem = 7\<close>.
\<close>

theorem permits_not_capacity:
  "FIFOBuff_TS_ctor no_semaphores 4294967298 =
     Some \<lparr>fifo = FIFOBuff_ctor 4294967298 :: nat FIFOBuff, mutex = None,
            add_sem = 2, rem_sem = 0\<rparr> \<and>
   FIFOBuff_capacity (FIFOBuff_ctor 4294967298 :: nat FIFOBuff) = 4294967298 \<and>
   reachable no_semaphores 4294967298 1
     \<lparr>shared = \<lparr>fifo = FIFOBuff_ctor 4294967298 :: nat FIFOBuff, mutex = None,
                 add_sem = 2, rem_sem = 0\<rparr>,
      threads = [None]\<rparr> \<and>
   quiescent
     \<lparr>shared = \<lparr>fifo = FIFOBuff_ctor 4294967298 :: nat FIFOBuff, mutex = None,
                 add_sem = 2, rem_sem = 0\<rparr>,
      threads = [None]\<rparr> \<and>
   FIFOBuff_TS_ctor no_semaphores 2147483648 = (None :: nat FIFOBuff_TS option) \<and>
   FIFOBuff_TS_ctor (no_semaphores(''TSQueue_AddSem'' \<mapsto> 7)) 2 =
     Some \<lparr>fifo = FIFOBuff_ctor 2 :: nat FIFOBuff, mutex = None, add_sem = 7, rem_sem = 0\<rparr>"
proof -
  have c: "FIFOBuff_TS_ctor no_semaphores 4294967298 =
     Some \<lparr>fifo = FIFOBuff_ctor 4294967298 :: nat FIFOBuff, mutex = None,
            add_sem = 2, rem_sem = 0\<rparr>"
    by (simp add: FIFOBuff_TS_ctor_def init_def sem_open_def no_semaphores_def cap_ctor
        unsigned_int_def SEM_VALUE_MAX_def)
  have "reachable no_semaphores 4294967298 1
     \<lparr>shared = \<lparr>fifo = FIFOBuff_ctor 4294967298 :: nat FIFOBuff, mutex = None,
                 add_sem = 2, rem_sem = 0\<rparr>,
      threads = replicate 1 None\<rparr>"
    by (rule reachable.initial[OF c])
  then have r: "reachable no_semaphores 4294967298 1
     \<lparr>shared = \<lparr>fifo = FIFOBuff_ctor 4294967298 :: nat FIFOBuff, mutex = None,
                 add_sem = 2, rem_sem = 0\<rparr>,
      threads = [None]\<rparr>"
    by simp
  have q: "quiescent
     \<lparr>shared = \<lparr>fifo = FIFOBuff_ctor 4294967298 :: nat FIFOBuff, mutex = None,
                 add_sem = 2, rem_sem = 0\<rparr>,
      threads = [None]\<rparr>"
    by (simp add: quiescent_def)
  have n: "FIFOBuff_TS_ctor no_semaphores 2147483648 = (None :: nat FIFOBuff_TS option)"
    by (simp add: FIFOBuff_TS_ctor_def init_def sem_open_def no_semaphores_def cap_ctor
        unsigned_int_def SEM_VALUE_MAX_def)
  have e: "FIFOBuff_TS_ctor (no_semaphores(''TSQueue_AddSem'' \<mapsto> 7)) 2 =
     Some \<lparr>fifo = FIFOBuff_ctor 2 :: nat FIFOBuff, mutex = None, add_sem = 7, rem_sem = 0\<rparr>"
    by (simp add: FIFOBuff_TS_ctor_def init_def sem_open_def no_semaphores_def cap_ctor
        unsigned_int_def SEM_VALUE_MAX_def)
  show ?thesis using c r q n e by (simp add: cap_ctor)
qed

text \<open>
  Claim C7, amended. Every successful add (\<open>add\<close> returning true, or \<open>add_wait\<close>
  returning) has moved one unit from \<open>add_sem\<close> to \<open>rem_sem\<close>, and every successful
  remove one unit from \<open>rem_sem\<close> to \<open>add_sem\<close>. In every state that any number of
  threads reach by interleaving the statements of their calls, the two counters and the
  permits held by calls in progress add up to what the two semaphores held at
  construction. When no semaphore exists under the two names and the capacity is at most
  \<open>SEM_VALUE_MAX\<close>, \<open>add_sem\<close> is initialized to the capacity and \<open>rem_sem\<close> to 0, so
  that this sum is the capacity, and in a quiescent state, where no call is in progress,
  \<open>add_sem + rem_sem\<close> is the capacity.
\<close>

theorem permit_accounting:
  "(fresh_names os \<longrightarrow> max_cap \<le> SEM_VALUE_MAX \<longrightarrow>
      FIFOBuff_TS_ctor os max_cap =
        Some (\<lparr>fifo = FIFOBuff_ctor max_cap, mutex = None, add_sem = max_cap, rem_sem = 0\<rparr>
              :: 'a FIFOBuff_TS)) \<and>
   (FIFOBuff_TS_add t s item = Returns (Some True) out s' \<longrightarrow>
      add_sem s = add_sem s' + 1 \<and> rem_sem s' = rem_sem s + 1) \<and>
   (FIFOBuff_TS_add_wait t s item = Returns r out s' \<longrightarrow>
      add_sem s = add_sem s' + 1 \<and> rem_sem s' = rem_sem s + 1) \<and>
   (FIFOBuff_TS_remove t s pitem = Returns (Some True) out s' \<longrightarrow>
      rem_sem s = rem_sem s' + 1 \<and> add_sem s' = add_sem s + 1) \<and>
   (FIFOBuff_TS_remove_wait t s pitem = Returns r out s' \<longrightarrow>
      rem_sem s = rem_sem s' + 1 \<and> add_sem s' = add_sem s + 1) \<and>
   (reachable os max_cap n (\<sigma> :: 'a system) \<longrightarrow>
      FIFOBuff_TS_ctor os max_cap = Some (s0 :: 'a FIFOBuff_TS) \<longrightarrow>
      add_sem (shared \<sigma>) + rem_sem (shared \<sigma>) + permits_in_flight \<sigma>
        = add_sem s0 + rem_sem s0 \<and>
      FIFOBuff_capacity (fifo (shared \<sigma>)) = max_cap) \<and>
   (reachable os max_cap n \<sigma> \<longrightarrow> fresh_names os \<longrightarrow> max_cap \<le> SEM_VALUE_MAX \<longrightarrow>
      add_sem (shared \<sigma>) + rem_sem (shared \<sigma>) + permits_in_flight \<sigma>
        = FIFOBuff_capacity (fifo (shared \<sigma>)) \<and>
      (quiescent \<sigma> \<longrightarrow>
         add_sem (shared \<sigma>) + rem_sem (shared \<sigma>) = FIFOBuff_capacity (fifo (shared \<sigma>))))"
proof -
  have i: "FIFOBuff_TS_ctor os max_cap =
        Some (\<lparr>fifo = FIFOBuff_ctor max_cap, mutex = None, add_sem = max_cap, rem_sem = 0\<rparr>
              :: 'a FIFOBuff_TS)"
    if "fresh_names os" "max_cap \<le> SEM_VALUE_MAX"
    by (rule ctor_as_asked[OF that])
  have a: "add_sem s = add_sem s' + 1 \<and> rem_sem s' = rem_sem s + 1"
    if "FIFOBuff_TS_add t s item = Returns (Some True) out s'"
    using that unfolding FIFOBuff_TS_add_eq
    by (auto split: if_splits option.splits sum.splits)
  have aw: "add_sem s = add_sem s' + 1 \<and> rem_sem s' = rem_sem s + 1"
    if "FIFOBuff_TS_add_wait t s item = Returns r out s'"
    using that unfolding FIFOBuff_TS_add_wait_eq
    by (auto split: if_splits option.splits sum.splits)
  have d: "rem_sem s = rem_sem s' + 1 \<and> add_sem s' = add_sem s + 1"
    if "FIFOBuff_TS_remove t s pitem = Returns (Some True) out s'"
    using that unfolding FIFOBuff_TS_remove_eq
    by (auto split: if_splits option.splits sum.splits)
  have dw: "rem_sem s = rem_sem s' + 1 \<and> add_sem s' = add_sem s + 1"
    if "FIFOBuff_TS_remove_wait t s pitem = Returns r out s'"
    using that unfolding FIFOBuff_TS_remove_wait_eq
    by (auto split: if_splits option.splits sum.splits)
  have g: "add_sem (shared \<sigma>) + rem_sem (shared \<sigma>) + permits_in_flight \<sigma>
        = add_sem s0 + rem_sem s0 \<and>
      FIFOBuff_capacity (fifo (shared \<sigma>)) = max_cap"
    if "reachable os max_cap n \<sigma>" "FIFOBuff_TS_ctor os max_cap = Some s0"
    using reachable_permits[OF that(1)] that(2) by (auto simp: FIFOBuff_capacity_def)
  have q: "add_sem (shared \<sigma>) + rem_sem (shared \<sigma>) + permits_in_flight \<sigma>
        = FIFOBuff_capacity (fifo (shared \<sigma>)) \<and>
      (quiescent \<sigma> \<longrightarrow>
         add_sem (shared \<sigma>) + rem_sem (shared \<sigma>) = FIFOBuff_capacity (fifo (shared \<sigma>)))"
    if "reachable os max_cap n \<sigma>" "fresh_names os" "max_cap \<le> SEM_VALUE_MAX"
    using reachable_permits_as_asked[OF that] quiescent_no_permits[of \<sigma>]
    by (auto simp: FIFOBuff_capacity_def)
  show ?thesis using i a aw d dw g q by blast
qed

theorem permit_accounting_witness:
  "\<exists>s0 sA sB.
     fresh_names no_semaphores \<and> (2::nat) \<le> SEM_VALUE_MAX \<and>
     FIFOBuff_TS_ctor no_semaphores 2 = Some s0 \<and>
     add_sem s0 = 2 \<and> rem_sem s0 = 0 \<and>
     FIFOBuff_TS_add 0 s0 (7::nat) = Returns (Some True) None sA \<and>
     FIFOBuff_TS_add_wait 0 s0 (7::nat) = Returns None None sA \<and>
     add_sem sA = 1 \<and> rem_sem sA = 1 \<and>
     FIFOBuff_TS_remove 1 sA (Some Uninit) = Returns (Some True) (Some (Live 7)) sB \<and>
     FIFOBuff_TS_remove_wait 1 sA (Some Uninit) = Returns None (Some (Live 7)) sB \<and>
     add_sem sB = 2 \<and> rem_sem sB = 0 \<and>
     reachable no_semaphores 2 2 \<lparr>shared = sA, threads = [None, None]\<rparr> \<and>
     quiescent \<lparr>shared = sA, threads = [None, None]\<rparr> \<and>
     add_sem sA + rem_sem sA = FIFOBuff_capacity (fifo sA) \<and>
     FIFOBuff_capacity (fifo sA) = 2"
proof -
  define s0 :: "nat FIFOBuff_TS" where
    "s0 = \<lparr>fifo = FIFOBuff_ctor 2, mutex = None, add_sem = 2, rem_sem = 0\<rparr>"
  define sA :: "nat FIFOBuff_TS" where
    "sA = \<lparr>fifo = \<lparr>buffer = [Live 7, Uninit], head = 0, tail = 1, fifo_size = 1,
                   fifo_cap = 2, free_mem = True, lifecycle = [Ctor 0]\<rparr>,
           mutex = None, add_sem = 1, rem_sem = 1\<rparr>"
  define sB :: "nat FIFOBuff_TS" where
    "sB = \<lparr>fifo = \<lparr>buffer = [Live 7, Uninit], head = 1, tail = 1, fifo_size = 0,
                   fifo_cap = 2, free_mem = True, lifecycle = [Ctor 0, Dtor 1]\<rparr>,
           mutex = None, add_sem = 2, rem_sem = 0\<rparr>"
  define \<sigma>0 :: "nat system" where "\<sigma>0 = \<lparr>shared = s0, threads = replicate 2 None\<rparr>"
  define \<sigma>A :: "nat system" where "\<sigma>A = \<lparr>shared = sA, threads = [None, None]\<rparr>"
  note t1 = permit_accounting[where os = no_semaphores and max_cap = 2 and t = 0 and s = s0
         and item = 7 and out = None and s' = sA and r = None and n = 2 and \<sigma> = \<sigma>A
         and pitem = None and ?s0.0 = s0]
  note t2 = permit_accounting[where os = no_semaphores and max_cap = 2 and t = 1 and s = sA
         and pitem = "Some Uninit" and out = "Some (Live 7)" and s' = sB and r = None
         and n = 2 and \<sigma> = \<sigma>A and item = 7 and ?s0.0 = s0]
  have h: "fresh_names no_semaphores" "(2::nat) \<le> SEM_VALUE_MAX"
    by (simp_all add: fresh_names_def no_semaphores_def SEM_VALUE_MAX_def)
  have c0: "FIFOBuff_TS_ctor no_semaphores 2 = Some s0"
    using t1 h unfolding s0_def by blast
  have a: "FIFOBuff_TS_add 0 s0 7 = Returns (Some True) None sA"
    by (simp add: FIFOBuff_TS_add_eq s0_def after_add_7 sA_def)
  have aw: "FIFOBuff_TS_add_wait 0 s0 7 = Returns None None sA"
    by (simp add: FIFOBuff_TS_add_wait_eq s0_def after_add_7 sA_def)
  have d: "FIFOBuff_TS_remove 1 sA (Some Uninit) = Returns (Some True) (Some (Live 7)) sB"
    by (simp add: FIFOBuff_TS_remove_eq sA_def after_remove_7 sB_def)
  have dw: "FIFOBuff_TS_remove_wait 1 sA (Some Uninit) = Returns None (Some (Live 7)) sB"
    by (simp add: FIFOBuff_TS_remove_wait_eq sA_def after_remove_7 sB_def)
  have r0: "reachable no_semaphores 2 2 \<sigma>0"
    unfolding \<sigma>0_def by (rule reachable.initial[OF c0])
  have c: "call 0 (shared \<sigma>0) (Add_claim False 7) = Returns (Some True) None sA"
    using a by (simp add: FIFOBuff_TS_add_def \<sigma>0_def)
  have "reachable no_semaphores 2 2 (\<sigma>0\<lparr>shared := sA\<rparr>)"
    by (rule call_reachable[OF r0 _ _ _ c]) (simp_all add: \<sigma>0_def)
  then have r: "reachable no_semaphores 2 2 \<sigma>A"
    by (simp add: \<sigma>0_def \<sigma>A_def eval_nat_numeral)
  have q: "quiescent \<sigma>A" by (simp add: quiescent_def \<sigma>A_def)
  have e1: "add_sem s0 = add_sem sA + 1 \<and> rem_sem sA = rem_sem s0 + 1"
    using t1 a by blast
  have e2: "rem_sem sA = rem_sem sB + 1 \<and> add_sem sB = add_sem sA + 1"
    using t2 d by blast
  have e4: "add_sem (shared \<sigma>A) + rem_sem (shared \<sigma>A) = FIFOBuff_capacity (fifo (shared \<sigma>A))"
    using t1 r q h by blast
  have e6: "FIFOBuff_capacity (fifo (shared \<sigma>A)) = 2"
    using t1 r c0 by blast
  have v0: "add_sem s0 = 2" "rem_sem s0 = 0" by (simp_all add: s0_def)
  have v: "add_sem sA = 1" "rem_sem sA = 1" "add_sem sB = 2" "rem_sem sB = 0"
    using e1 e2 v0 by simp_all
  have e5: "add_sem sA + rem_sem sA = FIFOBuff_capacity (fifo sA)"
    "FIFOBuff_capacity (fifo sA) = 2"
    using e4 e6 by (simp_all add: \<sigma>A_def)
  have "fresh_names no_semaphores \<and> (2::nat) \<le> SEM_VALUE_MAX \<and>
     FIFOBuff_TS_ctor no_semaphores 2 = Some s0 \<and>
     add_sem s0 = 2 \<and> rem_sem s0 = 0 \<and>
     FIFOBuff_TS_add 0 s0 (7::nat) = Returns (Some True) None sA \<and>
     FIFOBuff_TS_add_wait 0 s0 (7::nat) = Returns None None sA \<and>
     add_sem sA = 1 \<and> rem_sem sA = 1 \<and>
     FIFOBuff_TS_remove 1 sA (Some Uninit) = Returns (Some True) (Some (Live 7)) sB \<and>
     FIFOBuff_TS_remove_wait 1 sA (Some Uninit) = Returns None (Some (Live 7)) sB \<and>
     add_sem sB = 2 \<and> rem_sem sB = 0 \<and>
     reachable no_semaphores 2 2 \<lparr>shared = sA, threads = [None, None]\<rparr> \<and>
     quiescent \<lparr>shared = sA, threads = [None, None]\<rparr> \<and>
     add_sem sA + rem_sem sA = FIFOBuff_capacity (fifo sA) \<and>
     FIFOBuff_capacity (fifo sA) = 2"
    using h c0 v0 a aw d dw v r q e5 unfolding \<sigma>A_def by blast
  then show ?thesis by blast
qed

subsection \<open>Non-blocking add\<close>



end
